theory Spec2Isabelle
  imports Main "HOL-Library.Word"
begin

section \<open>The S3 authentication state store (src/Utils/use-s3-auth-state.ts)\<close>

text \<open>
  The module keeps the credentials and the signal keys of a session as JSON objects of an
  S3 bucket. Its three local functions \<open>writeData\<close>, \<open>readData\<close> and \<open>removeData\<close> issue one
  request each, under the lock named by the object key; \<open>keys.get\<close>, \<open>keys.set\<close> and
  \<open>saveCreds\<close> are built on them.

  JavaScript strings are modelled as \<open>string\<close>, a promise as the pair of its outcome
  (\<open>Inl\<close> a rejection, \<open>Inr\<close> the value) and the state of the bucket afterwards.

  What the module imports is not part of it. The S3 client, the text side of
  \<open>JSON.stringify\<close> and \<open>JSON.parse\<close>, the credentials that \<open>initAuthCreds()\<close> makes and the
  deserializer \<open>fromObject\<close> are parameters of the functions below; the codec \<open>BufferJSON\<close>
  follows the contract that the spec gives for it; the lock of \<open>AsyncLock\<close> runs the
  operation it is given, the operations being run one at a time.
\<close>

subsection \<open>Values\<close>

text \<open>
  The values that are written and read: the JSON-serializable values of JavaScript, with
  \<open>Buf\<close> for a binary byte sequence (a Buffer). \<open>undefined\<close> is not a value of this type:
  where the code can meet it (a missing key, a missing body, an absent entry given to
  \<open>keys.set\<close>) the model has an \<open>option\<close>. Numbers are the integers.
\<close>

datatype jsval =
    Null
  | Bool bool
  | Num int
  | Str string
  | Arr "jsval list"
  | Obj "(string \<times> jsval) list"
  | Buf "8 word list"

text \<open>What a conditional of JavaScript takes for true.\<close>

fun truthy :: "jsval \<Rightarrow> bool" where
  "truthy Null = False"
| "truthy (Bool b) = b"
| "truthy (Num n) = (n \<noteq> 0)"
| "truthy (Str s) = (s \<noteq> [])"
| "truthy (Arr xs) = True"
| "truthy (Obj kvs) = True"
| "truthy (Buf bs) = True"

text \<open>
  The rejections: of the store (the object does not exist, or any other failure of the
  service), of reading the stream of a body, of \<open>JSON.parse\<close>, and of the deserializer.
\<close>

datatype error =
    NoSuchKey
  | ServiceFailure
  | StreamFailure
  | SyntaxError
  | TypeError

subsection \<open>File names\<close>

text \<open>
  \<open>String.prototype.replace\<close> with a global pattern of one character: every occurrence
  of \<open>c\<close> becomes \<open>r\<close>.
\<close>

fun replace_global :: "char \<Rightarrow> string \<Rightarrow> string \<Rightarrow> string" where
  "replace_global c r [] = []"
| "replace_global c r (x # xs) =
     (if x = c then r @ replace_global c r xs else x # replace_global c r xs)"

text \<open>
  \<^verbatim>\<open>const fixFileName = (file?: string) => file?.replace(/\//g, '__')?.replace(/:/g, '-') || ''\<close>
\<close>

definition fixFileName :: "string option \<Rightarrow> string" where
  "fixFileName file =
     (case file of
        None \<Rightarrow> []
      | Some f \<Rightarrow>
          (let r = replace_global (CHR '':'') ''-'' (replace_global (CHR ''/'') ''__'' f)
           in if r \<noteq> [] then r else []))"

subsection \<open>The codec of binary fields\<close>

text \<open>
  Modelled from the spec: \<open>BufferJSON\<close> (imported from \<^verbatim>\<open>./generics\<close>) is not among the
  sources. The spec gives its contract: a binary byte sequence is encoded as the tagged
  object \<^verbatim>\<open>{"type":"Buffer","data":[<byte>, ...]}\<close>, and the reviver decodes an object of
  this form back to the raw bytes.
\<close>

definition tagged :: "8 word list \<Rightarrow> jsval" where
  "tagged bs = Obj [(''type'', Str ''Buffer''), (''data'', Arr (map (\<lambda>b. Num (uint b)) bs))]"

definition BufferJSON_replacer :: "jsval \<Rightarrow> jsval" where
  "BufferJSON_replacer v = (case v of Buf bs \<Rightarrow> tagged bs | _ \<Rightarrow> v)"

fun byte_of :: "jsval \<Rightarrow> 8 word option" where
  "byte_of (Num n) = (if 0 \<le> n \<and> n < 256 then Some (word_of_int n) else None)"
| "byte_of _ = None"

fun bytes_of :: "jsval list \<Rightarrow> 8 word list option" where
  "bytes_of [] = Some []"
| "bytes_of (x # xs) =
     (case byte_of x of
        None \<Rightarrow> None
      | Some b \<Rightarrow> (case bytes_of xs of None \<Rightarrow> None | Some bs \<Rightarrow> Some (b # bs)))"

text \<open>
  The bytes of a value of the tagged form, \<open>None\<close> for every other value. The tagged form
  is an object of the two properties \<open>type\<close>, the string \<open>Buffer\<close>, and \<open>data\<close>, an array
  of bytes, whichever comes first.
\<close>

definition tag_bytes :: "jsval \<Rightarrow> jsval \<Rightarrow> 8 word list option" where
  "tag_bytes t d =
     (case (t, d) of
        (Str name, Arr xs) \<Rightarrow> (if name = ''Buffer'' then bytes_of xs else None)
      | _ \<Rightarrow> None)"

definition tagged_data :: "jsval \<Rightarrow> 8 word list option" where
  "tagged_data v =
     (case v of
        Obj [(k1, v1), (k2, v2)] \<Rightarrow>
          (if k1 = ''type'' \<and> k2 = ''data'' then tag_bytes v1 v2
           else if k1 = ''data'' \<and> k2 = ''type'' then tag_bytes v2 v1
           else None)
      | _ \<Rightarrow> None)"

definition BufferJSON_reviver :: "jsval \<Rightarrow> jsval" where
  "BufferJSON_reviver v = (case tagged_data v of Some bs \<Rightarrow> Buf bs | None \<Rightarrow> v)"

text \<open>
  \<open>JSON.stringify(data, replacer)\<close> gives every value to the replacer before it descends
  into the result; \<open>JSON.parse(text, reviver)\<close> gives every value to the reviver after its
  parts. \<open>encode\<close> and \<open>decode\<close> are these two traversals with the codec above. The
  replacer changes byte sequences only, and the parts of a tagged object are a string and
  numbers, which it leaves as they are (lemma \<open>encode_descends\<close> below).
\<close>

fun encode :: "jsval \<Rightarrow> jsval" where
  "encode (Buf bs) = BufferJSON_replacer (Buf bs)"
| "encode (Arr xs) = Arr (map encode xs)"
| "encode (Obj kvs) = Obj (map (map_prod id encode) kvs)"
| "encode v = v"

fun decode :: "jsval \<Rightarrow> jsval" where
  "decode (Arr xs) = BufferJSON_reviver (Arr (map decode xs))"
| "decode (Obj kvs) = BufferJSON_reviver (Obj (map (map_prod id decode) kvs))"
| "decode v = BufferJSON_reviver v"

text \<open>
  The text side of \<open>JSON.stringify\<close> and \<open>JSON.parse\<close> belongs to the platform: the
  functions of the module take it as a parameter. \<open>parse_text\<close> is \<open>None\<close> where
  \<open>JSON.parse\<close> throws a SyntaxError.
\<close>

record JSON =
  stringify_text :: "jsval \<Rightarrow> string"
  parse_text :: "string \<Rightarrow> jsval option"

definition JSON_stringify :: "JSON \<Rightarrow> jsval \<Rightarrow> string" where
  "JSON_stringify J data = stringify_text J (encode data)"

definition JSON_parse :: "JSON \<Rightarrow> string \<Rightarrow> error + jsval" where
  "JSON_parse J text =
     (case parse_text J text of None \<Rightarrow> Inl SyntaxError | Some w \<Rightarrow> Inr (decode w))"

subsection \<open>The storage client\<close>

text \<open>
  A promise over a state \<open>'s\<close>: run from a state, it settles with an error or a value and
  leaves a state. The client of the object store is a parameter: three requests, each of
  which the service may reject. The body of a fetched object may be missing, and reading
  its stream may fail.
\<close>

type_synonym ('a, 's) promise = "'s \<Rightarrow> (error + 'a) \<times> 's"

record GetObjectOutput =
  Body :: "(error + string) option"

record 's S3Client =
  getObject :: "string \<Rightarrow> string \<Rightarrow> (GetObjectOutput, 's) promise"
  putObject :: "string \<Rightarrow> string \<Rightarrow> string \<Rightarrow> string \<Rightarrow> (unit, 's) promise"
  deleteObject :: "string \<Rightarrow> string \<Rightarrow> (unit, 's) promise"

text \<open>
  What the module imports: the JSON text layer, the storage client built from
  \<open>config.s3Config\<close>, and \<open>proto.Message.AppStateSyncKeyData.fromObject\<close>.
\<close>

record 's world =
  json :: JSON
  s3Client :: "'s S3Client"
  fromObject :: "jsval \<Rightarrow> error + jsval"

record S3Config =
  bucket :: string
  prefix :: "string option"

text \<open>\<^verbatim>\<open>const { bucket, prefix = '', s3Config } = config\<close>\<close>

definition prefix_of :: "S3Config \<Rightarrow> string" where
  "prefix_of config = (case prefix config of None \<Rightarrow> [] | Some p \<Rightarrow> p)"

text \<open>
  \<open>operationLock.acquire(name, fn)\<close> runs \<open>fn\<close> once the lock \<open>name\<close> is free and settles as
  \<open>fn\<close> does. The model runs one operation at a time, so the lock is free.
\<close>

definition operationLock_acquire :: "string \<Rightarrow> ('a, 's) promise \<Rightarrow> ('a, 's) promise" where
  "operationLock_acquire name fn = fn"

text \<open>
  \<open>Promise.all\<close> of tasks that have all been started: every task runs, in the order in
  which they were started; the result is the first rejection, or the list of the values.
\<close>

fun settle :: "('a, 's) promise list \<Rightarrow> 's \<Rightarrow> (error + 'a) list \<times> 's" where
  "settle [] s = ([], s)"
| "settle (t # ts) s =
     (case t s of (r, s') \<Rightarrow> (case settle ts s' of (rs, s'') \<Rightarrow> (r # rs, s'')))"

fun fulfilled :: "(error + 'a) list \<Rightarrow> error + 'a list" where
  "fulfilled [] = Inr []"
| "fulfilled (Inl e # rs) = Inl e"
| "fulfilled (Inr v # rs) = (case fulfilled rs of Inl e \<Rightarrow> Inl e | Inr vs \<Rightarrow> Inr (v # vs))"

definition Promise_all :: "('a, 's) promise list \<Rightarrow> ('a list, 's) promise" where
  "Promise_all tasks s = (case settle tasks s of (rs, s') \<Rightarrow> (fulfilled rs, s'))"

subsection \<open>Writing, reading and removing an object\<close>

text \<open>
  \<^verbatim>\<open>
  const writeData = async (data: any, key: string) => {
      const objectKey = `${prefix}${fixFileName(key)}`
      return operationLock.acquire(objectKey, async () => {
          const params = { Bucket: bucket, Key: objectKey,
              Body: JSON.stringify(data, BufferJSON.replacer), ContentType: 'application/json' }
          await s3Client.send(new PutObjectCommand(params))
      })
  }
  \<close>
  Nothing catches the rejection of the put.
\<close>

definition writeData :: "'s world \<Rightarrow> S3Config \<Rightarrow> jsval \<Rightarrow> string \<Rightarrow> (unit, 's) promise" where
  "writeData W config data key =
     (let objectKey = prefix_of config @ fixFileName (Some key)
      in operationLock_acquire objectKey
           (putObject (s3Client W) (bucket config) objectKey
              (JSON_stringify (json W) data) ''application/json''))"

text \<open>
  \<^verbatim>\<open>
  const readData = async (key: string) => {
      try {
          const objectKey = `${prefix}${fixFileName(key)}`
          return await operationLock.acquire(objectKey, async () => {
              const params = { Bucket: bucket, Key: objectKey }
              const response = await s3Client.send(new GetObjectCommand(params))
              const data = await response.Body?.transformToString()
              return data ? JSON.parse(data, BufferJSON.reviver) : null
          })
      } catch (error) {
          return null
      }
  }
  \<close>
  The fetch, the reading of the body and \<open>JSON.parse\<close> all run inside the \<open>try\<close>, whose
  \<open>catch\<close> returns \<open>null\<close>. A missing body (\<open>undefined\<close>) and the empty text are falsy.
\<close>

definition readData :: "'s world \<Rightarrow> S3Config \<Rightarrow> string \<Rightarrow> (jsval, 's) promise" where
  "readData W config key s =
     (let objectKey = prefix_of config @ fixFileName (Some key)
      in case operationLock_acquire objectKey
                (\<lambda>s. case getObject (s3Client W) (bucket config) objectKey s of
                        (Inl e, s') \<Rightarrow> (Inl e, s')
                      | (Inr response, s') \<Rightarrow>
                          (case Body response of
                             None \<Rightarrow> (Inr Null, s')
                           | Some (Inl e) \<Rightarrow> (Inl e, s')
                           | Some (Inr data) \<Rightarrow>
                               (if data \<noteq> [] then JSON_parse (json W) data else Inr Null, s')))
                s of
           (Inl error, s') \<Rightarrow> (Inr Null, s')
         | (Inr v, s') \<Rightarrow> (Inr v, s'))"

text \<open>
  \<^verbatim>\<open>
  const removeData = async (key: string) => {
      try {
          const objectKey = `${prefix}${fixFileName(key)}`
          await operationLock.acquire(objectKey, async () => {
              const params = { Bucket: bucket, Key: objectKey }
              await s3Client.send(new DeleteObjectCommand(params))
          })
      } catch (_) {
          // Ignore errors on deletion
      }
  }
  \<close>
\<close>

definition removeData :: "'s world \<Rightarrow> S3Config \<Rightarrow> string \<Rightarrow> (unit, 's) promise" where
  "removeData W config key s =
     (let objectKey = prefix_of config @ fixFileName (Some key)
      in case operationLock_acquire objectKey
                (deleteObject (s3Client W) (bucket config) objectKey) s of
           (Inl error, s') \<Rightarrow> (Inr (), s')
         | (Inr u, s') \<Rightarrow> (Inr (), s'))"

subsection \<open>The authentication state\<close>

text \<open>
  \<^verbatim>\<open>
  get: async (type, ids) => {
      const data: { [_: string]: SignalDataTypeMap[typeof type] } = {}
      await Promise.all(ids.map(async (id) => {
          let value = await readData(`${type}-${id}.json`)
          if (type === 'app-state-sync-key' && value) {
              value = proto.Message.AppStateSyncKeyData.fromObject(value)
          }
          data[id] = value
      }))
      return data
  }
  \<close>
  \<open>keys.get\<close>: one task for each identifier; a task reads the key, gives the value of an
  app-state sync key to the deserializer, and assigns the value to \<open>data[id]\<close> (\<open>ident\<close> is
  the \<open>id\<close> of the source). The dictionary \<open>data\<close> is local to the call: the tasks run on
  the pair of the dictionary and the state of the store.

  The dictionary of the model holds the own properties of the object \<open>data\<close>, which is made
  by the literal \<^verbatim>\<open>{}\<close> and so inherits from \<open>Object.prototype\<close>. The assignment
  \<open>data[id] = value\<close> makes or updates the own property \<open>id\<close>, but for the name \<open>__proto__\<close>:
  the object inherits an accessor of this name, and the assignment calls its setter, which
  gives the object another prototype when the value is an object or \<open>null\<close> and does
  nothing otherwise. The object gets no own property \<open>__proto__\<close>.
\<close>

definition assign_property :: "(string \<rightharpoonup> jsval) \<Rightarrow> string \<Rightarrow> jsval \<Rightarrow> (string \<rightharpoonup> jsval)" where
  "assign_property data name v = (if name = ''__proto__'' then data else data(name \<mapsto> v))"

definition keys_get_task ::
  "'s world \<Rightarrow> S3Config \<Rightarrow> string \<Rightarrow> string \<Rightarrow> (unit, (string \<rightharpoonup> jsval) \<times> 's) promise" where
  "keys_get_task W config type ident = (\<lambda>(data, s).
     case readData W config (type @ ''-'' @ ident @ ''.json'') s of
       (Inl e, s') \<Rightarrow> (Inl e, (data, s'))
     | (Inr v, s') \<Rightarrow>
         (if type = ''app-state-sync-key'' \<and> truthy v
          then (case fromObject W v of
                  Inl e \<Rightarrow> (Inl e, (data, s'))
                | Inr v' \<Rightarrow> (Inr (), (assign_property data ident v', s')))
          else (Inr (), (assign_property data ident v, s'))))"

definition keys_get ::
  "'s world \<Rightarrow> S3Config \<Rightarrow> string \<Rightarrow> string list \<Rightarrow> (string \<rightharpoonup> jsval, 's) promise" where
  "keys_get W config type ids s =
     (case Promise_all (map (keys_get_task W config type) ids) (Map.empty, s) of
        (Inl e, (data, s')) \<Rightarrow> (Inl e, s')
      | (Inr us, (data, s')) \<Rightarrow> (Inr data, s'))"

text \<open>
  \<^verbatim>\<open>
  set: async(data) => {
      const tasks: Promise<void>[] = []
      for (const category in data) {
          for (const id in data[category]) {
              const value = data[category][id]
              const key = `${category}-${id}.json`
              tasks.push(value ? writeData(value, key) : removeData(key))
          }
      }
      await Promise.all(tasks)
  }
  \<close>
  \<open>keys.set\<close>: \<open>data\<close> lists the categories, and under each the identifiers with their
  values, in the order in which \<open>for ... in\<close> enumerates them; an entry whose value is
  \<open>undefined\<close> is \<open>None\<close>.
\<close>

definition keys_set_tasks ::
  "'s world \<Rightarrow> S3Config \<Rightarrow> (string \<times> (string \<times> jsval option) list) list
     \<Rightarrow> (unit, 's) promise list" where
  "keys_set_tasks W config data =
     concat (map (\<lambda>(category, entries).
       map (\<lambda>(ident, value).
         (let key = category @ ''-'' @ ident @ ''.json''
          in case value of
               None \<Rightarrow> removeData W config key
             | Some v \<Rightarrow> (if truthy v then writeData W config v key
                          else removeData W config key)))
         entries) data)"

definition keys_set ::
  "'s world \<Rightarrow> S3Config \<Rightarrow> (string \<times> (string \<times> jsval option) list) list
     \<Rightarrow> (unit, 's) promise" where
  "keys_set W config data s =
     (case Promise_all (keys_set_tasks W config data) s of
        (Inl e, s') \<Rightarrow> (Inl e, s')
      | (Inr us, s') \<Rightarrow> (Inr (), s'))"

text \<open>
  \<^verbatim>\<open>
  const creds: AuthenticationCreds = await readData('creds.json') || initAuthCreds()
  return { state: { creds, keys: { get: ..., set: ... } },
           saveCreds: () => { return writeData(creds, 'creds.json') } }
  \<close>
  The handle that \<open>useS3AuthState\<close> returns. \<open>initAuthCreds\<close> stands for the credentials
  that the routine of this name (imported from \<^verbatim>\<open>./auth-utils\<close>) makes when it is called.
  The credentials are a value held by the handle: the model has no assignment to them,
  and \<open>saveCreds\<close> writes the credentials with which the handle was made.
\<close>

record 's AuthHandle =
  state_creds :: jsval
  state_keys_get :: "string \<Rightarrow> string list \<Rightarrow> (string \<rightharpoonup> jsval, 's) promise"
  state_keys_set :: "(string \<times> (string \<times> jsval option) list) list \<Rightarrow> (unit, 's) promise"
  saveCreds :: "(unit, 's) promise"

definition useS3AuthState ::
  "'s world \<Rightarrow> S3Config \<Rightarrow> jsval \<Rightarrow> ('s AuthHandle, 's) promise" where
  "useS3AuthState W config initAuthCreds s =
     (case readData W config ''creds.json'' s of
        (Inl e, s') \<Rightarrow> (Inl e, s')
      | (Inr r, s') \<Rightarrow>
          (let creds = (if truthy r then r else initAuthCreds)
           in (Inr \<lparr> state_creds = creds,
                     state_keys_get = keys_get W config,
                     state_keys_set = keys_set W config,
                     saveCreds = writeData W config creds ''creds.json'' \<rparr>, s')))"

subsection \<open>A store that keeps what it is given\<close>

text \<open>
  The object store that the spec assumes: every request succeeds, a fetch returns the
  body of the last put of the object key, and fails with \<open>NoSuchKey\<close> when the object was
  never put or has been deleted. Its state maps a bucket and an object key to a body.
\<close>

type_synonym buckets = "string \<times> string \<rightharpoonup> string"

definition consistentStore :: "buckets S3Client" where
  "consistentStore =
     \<lparr> getObject = (\<lambda>b k s. case s (b, k) of
                                 None \<Rightarrow> (Inl NoSuchKey, s)
                               | Some body \<Rightarrow> (Inr \<lparr> Body = Some (Inr body) \<rparr>, s)),
       putObject = (\<lambda>b k body contentType s. (Inr (), s((b, k) \<mapsto> body))),
       deleteObject = (\<lambda>b k s. (Inr (), s((b, k) := None))) \<rparr>"

subsection \<open>The JSON text of the platform\<close>

text \<open>
  The text that \<open>JSON.stringify\<close> writes for a value, without indentation, and the
  grammar that \<open>JSON.parse\<close> reads, for the values of the model: integers for numbers,
  characters up to code 255. An object is the list of its properties in the order of
  enumeration. A byte sequence that reaches the text unencoded is written through its
  \<open>toJSON\<close>, which gives the tagged form too.
\<close>

definition digit_char :: "nat \<Rightarrow> char" where
  "digit_char d = char_of (48 + d)"

definition hex_char :: "nat \<Rightarrow> char" where
  "hex_char d = (if d < 10 then char_of (48 + d) else char_of (87 + d))"

function show_nat :: "nat \<Rightarrow> string" where
  "show_nat n = (if n < 10 then [digit_char n] else show_nat (n div 10) @ [digit_char (n mod 10)])"
  by pat_completeness auto
termination
  by (relation "measure (\<lambda>n. n)") auto

declare show_nat.simps [simp del]

definition show_int :: "int \<Rightarrow> string" where
  "show_int i = (if i < 0 then CHR ''-'' # show_nat (nat (- i)) else show_nat (nat i))"

definition quote_char :: "char \<Rightarrow> string" where
  "quote_char c =
     (let n = (of_char c :: nat)
      in if n = 34 then [CHR 0x5C, CHR 0x22]
         else if n = 92 then [CHR 0x5C, CHR 0x5C]
         else if n = 8 then [CHR 0x5C, CHR ''b'']
         else if n = 9 then [CHR 0x5C, CHR ''t'']
         else if n = 10 then [CHR 0x5C, CHR ''n'']
         else if n = 12 then [CHR 0x5C, CHR ''f'']
         else if n = 13 then [CHR 0x5C, CHR ''r'']
         else if n < 32 then [CHR 0x5C, CHR ''u'', CHR ''0'', CHR ''0'',
                               hex_char (n div 16), hex_char (n mod 16)]
         else [c])"

definition quote :: "string \<Rightarrow> string" where
  "quote s = CHR 0x22 # concat (map quote_char s) @ [CHR 0x22]"

fun join_comma :: "string list \<Rightarrow> string" where
  "join_comma [] = []"
| "join_comma [x] = x"
| "join_comma (x # y # ys) = x @ CHR '','' # join_comma (y # ys)"

fun print_json :: "jsval \<Rightarrow> string" where
  "print_json Null = ''null''"
| "print_json (Bool b) = (if b then ''true'' else ''false'')"
| "print_json (Num n) = show_int n"
| "print_json (Str s) = quote s"
| "print_json (Arr xs) = CHR ''['' # join_comma (map print_json xs) @ '']''"
| "print_json (Obj kvs) =
     CHR ''{'' # join_comma (map (\<lambda>kv. quote (fst kv) @ CHR '':'' # print_json (snd kv)) kvs) @ ''}''"
| "print_json (Buf bs) =
     CHR ''{'' # quote ''type'' @ CHR '':'' # quote ''Buffer'' @ CHR '','' # quote ''data'' @ CHR '':'' #
       CHR ''['' # join_comma (map (\<lambda>b. show_int (uint b)) bs) @ '']}''"

definition is_ws :: "char \<Rightarrow> bool" where
  "is_ws c = (c = CHR '' '' \<or> c = CHR 0x09 \<or> c = CHR 0x0A \<or> c = CHR 0x0D)"

definition skip_ws :: "string \<Rightarrow> string" where
  "skip_ws cs = dropWhile is_ws cs"

definition digit_val :: "char \<Rightarrow> nat option" where
  "digit_val c =
     (let n = (of_char c :: nat) in if 48 \<le> n \<and> n \<le> 57 then Some (n - 48) else None)"

definition hex_val :: "char \<Rightarrow> nat option" where
  "hex_val c =
     (let n = (of_char c :: nat)
      in if 48 \<le> n \<and> n \<le> 57 then Some (n - 48)
         else if 97 \<le> n \<and> n \<le> 102 then Some (n - 87)
         else if 65 \<le> n \<and> n \<le> 70 then Some (n - 55)
         else None)"

text \<open>The digits at the head of a text, their value, and the rest.\<close>

fun parse_digits :: "nat \<Rightarrow> string \<Rightarrow> nat \<times> string" where
  "parse_digits acc [] = (acc, [])"
| "parse_digits acc (c # cs) =
     (case digit_val c of None \<Rightarrow> (acc, c # cs) | Some d \<Rightarrow> parse_digits (10 * acc + d) cs)"

text \<open>
  A number: an optional sign and digits without a leading zero. A fraction or an exponent
  is outside the numbers of the model and is refused.
\<close>

definition parse_unsigned :: "string \<Rightarrow> (nat \<times> string) option" where
  "parse_unsigned cs =
     (case cs of
        [] \<Rightarrow> None
      | c # cs' \<Rightarrow>
          (case digit_val c of
             None \<Rightarrow> None
           | Some d \<Rightarrow>
               (let (n, rest) = (if d = 0 then (0, cs') else parse_digits d cs')
                in case rest of
                     [] \<Rightarrow> Some (n, rest)
                   | r # rs \<Rightarrow>
                       (if digit_val r \<noteq> None \<or> r = CHR ''.'' \<or> r = CHR ''e'' \<or> r = CHR ''E''
                        then None else Some (n, rest)))))"

definition parse_number :: "string \<Rightarrow> (jsval \<times> string) option" where
  "parse_number cs =
     (case cs of
        [] \<Rightarrow> None
      | c # cs' \<Rightarrow>
          (if c = CHR ''-''
           then (case parse_unsigned cs' of
                   None \<Rightarrow> None
                 | Some (n, rest) \<Rightarrow> Some (Num (- int n), rest))
           else (case parse_unsigned cs of
                   None \<Rightarrow> None
                 | Some (n, rest) \<Rightarrow> Some (Num (int n), rest))))"

text \<open>The characters of a string after its opening quote, up to the closing quote.\<close>

fun parse_chars :: "string \<Rightarrow> (string \<times> string) option" where
  "parse_chars [] = None"
| "parse_chars (c # cs) =
     (if c = CHR 0x22 then Some ([], cs)
      else if c = CHR 0x5C then
        (case cs of
           [] \<Rightarrow> None
         | e # cs1 \<Rightarrow>
             (if e = CHR ''u'' then
                (case cs1 of
                   h1 # h2 # h3 # h4 # cs2 \<Rightarrow>
                     (case (hex_val h1, hex_val h2, hex_val h3, hex_val h4) of
                        (Some a, Some b, Some c3, Some d) \<Rightarrow>
                          (if a = 0 \<and> b = 0
                           then (case parse_chars cs2 of
                                   None \<Rightarrow> None
                                 | Some (s, rest) \<Rightarrow> Some (char_of (16 * c3 + d) # s, rest))
                           else None)
                      | _ \<Rightarrow> None)
                 | _ \<Rightarrow> None)
              else
                (case (if e = CHR 0x22 then Some (CHR 0x22)
                       else if e = CHR 0x5C then Some (CHR 0x5C)
                       else if e = CHR ''/'' then Some (CHR ''/'')
                       else if e = CHR ''b'' then Some (CHR 0x08)
                       else if e = CHR ''f'' then Some (CHR 0x0C)
                       else if e = CHR ''n'' then Some (CHR 0x0A)
                       else if e = CHR ''r'' then Some (CHR 0x0D)
                       else if e = CHR ''t'' then Some (CHR 0x09)
                       else None) of
                   None \<Rightarrow> None
                 | Some x \<Rightarrow>
                     (case parse_chars cs1 of
                        None \<Rightarrow> None
                      | Some (s, rest) \<Rightarrow> Some (x # s, rest)))))
      else if (of_char c :: nat) < 32 then None
      else (case parse_chars cs of
              None \<Rightarrow> None
            | Some (s, rest) \<Rightarrow> Some (c # s, rest)))"

text \<open>A property that is given again takes the new value and keeps its place.\<close>

fun set_property :: "string \<Rightarrow> jsval \<Rightarrow> (string \<times> jsval) list \<Rightarrow> (string \<times> jsval) list" where
  "set_property k v [] = [(k, v)]"
| "set_property k v ((k', v') # kvs) =
     (if k = k' then (k, v) # kvs else (k', v') # set_property k v kvs)"

definition make_object :: "(string \<times> jsval) list \<Rightarrow> jsval" where
  "make_object members = Obj (foldl (\<lambda>acc (k, v). set_property k v acc) [] members)"

text \<open>
  The parser descends by recursion on a bound, which \<open>parse_json\<close> sets above the length
  of the text: every descent into an array or an object, and every further element or
  member, reads at least one character first.
\<close>

fun parse_value :: "nat \<Rightarrow> string \<Rightarrow> (jsval \<times> string) option"
  and parse_elements :: "nat \<Rightarrow> string \<Rightarrow> (jsval list \<times> string) option"
  and parse_members :: "nat \<Rightarrow> string \<Rightarrow> ((string \<times> jsval) list \<times> string) option"
where
  "parse_value 0 cs = None"
| "parse_value (Suc n) cs =
     (case cs of
        [] \<Rightarrow> None
      | c # rest \<Rightarrow>
          (if c = CHR ''{'' then
             (case skip_ws rest of
                [] \<Rightarrow> None
              | d # rest' \<Rightarrow>
                  (if d = CHR ''}'' then Some (Obj [], rest')
                   else (case parse_members n (d # rest') of
                           None \<Rightarrow> None
                         | Some (ms, r) \<Rightarrow> Some (make_object ms, r))))
           else if c = CHR ''['' then
             (case skip_ws rest of
                [] \<Rightarrow> None
              | d # rest' \<Rightarrow>
                  (if d = CHR '']'' then Some (Arr [], rest')
                   else (case parse_elements n (d # rest') of
                           None \<Rightarrow> None
                         | Some (vs, r) \<Rightarrow> Some (Arr vs, r))))
           else if c = CHR 0x22 then
             (case parse_chars rest of
                None \<Rightarrow> None
              | Some (s, r) \<Rightarrow> Some (Str s, r))
           else if take 4 cs = ''null'' then Some (Null, drop 4 cs)
           else if take 4 cs = ''true'' then Some (Bool True, drop 4 cs)
           else if take 5 cs = ''false'' then Some (Bool False, drop 5 cs)
           else parse_number cs))"
| "parse_elements 0 cs = None"
| "parse_elements (Suc n) cs =
     (case parse_value (Suc n) cs of
        None \<Rightarrow> None
      | Some (v, r) \<Rightarrow>
          (case skip_ws r of
             [] \<Rightarrow> None
           | c # r' \<Rightarrow>
               (if c = CHR '']'' then Some ([v], r')
                else if c = CHR '','' then
                  (case parse_elements n (skip_ws r') of
                     None \<Rightarrow> None
                   | Some (vs, r'') \<Rightarrow> Some (v # vs, r''))
                else None)))"
| "parse_members 0 cs = None"
| "parse_members (Suc n) cs =
     (case cs of
        [] \<Rightarrow> None
      | q # r \<Rightarrow>
          (if q \<noteq> CHR 0x22 then None
           else (case parse_chars r of
                   None \<Rightarrow> None
                 | Some (k, r1) \<Rightarrow>
                     (case skip_ws r1 of
                        [] \<Rightarrow> None
                      | c # r2 \<Rightarrow>
                          (if c \<noteq> CHR '':'' then None
                           else (case parse_value (Suc n) (skip_ws r2) of
                                   None \<Rightarrow> None
                                 | Some (v, r3) \<Rightarrow>
                                     (case skip_ws r3 of
                                        [] \<Rightarrow> None
                                      | c' # r4 \<Rightarrow>
                                          (if c' = CHR ''}'' then Some ([(k, v)], r4)
                                           else if c' = CHR '','' then
                                             (case parse_members n (skip_ws r4) of
                                                None \<Rightarrow> None
                                              | Some (ms, r5) \<Rightarrow> Some ((k, v) # ms, r5))
                                           else None))))))))"

definition parse_json :: "string \<Rightarrow> jsval option" where
  "parse_json text =
     (case parse_value (Suc (length text)) (skip_ws text) of
        None \<Rightarrow> None
      | Some (v, rest) \<Rightarrow> (if skip_ws rest = [] then Some v else None))"

definition ECMAScript_JSON :: JSON where
  "ECMAScript_JSON = \<lparr> stringify_text = print_json, parse_text = parse_json \<rparr>"

subsection \<open>Notions of the statements\<close>

text \<open>The object key that the three operations resolve a logical key to.\<close>

definition objectKey_of :: "S3Config \<Rightarrow> string \<Rightarrow> string" where
  "objectKey_of config key = prefix_of config @ fixFileName (Some key)"

text \<open>The logical key \<^verbatim>\<open>`${category}-${id}.json`\<close> of a category and an identifier.\<close>

definition file_of :: "string \<times> string \<Rightarrow> string" where
  "file_of ci = fst ci @ ''-'' @ snd ci @ ''.json''"

text \<open>
  The entries of the \<open>data\<close> given to \<open>keys.set\<close>, in the order of the two loops: the
  category and the identifier, with the value.
\<close>

definition entries ::
  "(string \<times> (string \<times> jsval option) list) list \<Rightarrow> ((string \<times> string) \<times> jsval option) list" where
  "entries data =
     concat (map (\<lambda>(category, es). map (\<lambda>(ident, value). ((category, ident), value)) es) data)"

text \<open>
  The test \<open>value ? ... : ...\<close> on the value of an entry: \<open>undefined\<close> is falsy, as
  \<open>null\<close>, \<open>false\<close>, \<open>0\<close> and the empty string are.
\<close>

definition present :: "jsval option \<Rightarrow> bool" where
  "present value = (case value of None \<Rightarrow> False | Some v \<Rightarrow> truthy v)"

text \<open>
  The task that \<open>keys.set\<close> starts for an entry, and the body that the task leaves on the
  consistent store for the object key of the entry (\<open>None\<close>: no object).
\<close>

definition entry_task ::
  "'s world \<Rightarrow> S3Config \<Rightarrow> (string \<times> string) \<times> jsval option \<Rightarrow> (unit, 's) promise" where
  "entry_task W config e =
     (case snd e of
        None \<Rightarrow> removeData W config (file_of (fst e))
      | Some v \<Rightarrow> (if truthy v then writeData W config v (file_of (fst e))
                   else removeData W config (file_of (fst e))))"

definition entry_body :: "JSON \<Rightarrow> jsval option \<Rightarrow> string option" where
  "entry_body J value =
     (case value of
        None \<Rightarrow> None
      | Some v \<Rightarrow> (if truthy v then Some (JSON_stringify J v) else None))"

text \<open>What \<open>readData\<close> makes of the body that the consistent store holds for an object key.\<close>

definition stored_value :: "JSON \<Rightarrow> string option \<Rightarrow> jsval" where
  "stored_value J body =
     (case body of
        None \<Rightarrow> Null
      | Some text \<Rightarrow>
          (if text \<noteq> [] then (case JSON_parse J text of Inl e \<Rightarrow> Null | Inr v \<Rightarrow> v) else Null))"

text \<open>
  What a task of \<open>keys.get\<close> makes of the value it has read, before it assigns it: the
  deserializer is given the truthy values of the category \<open>app-state-sync-key\<close>, and its
  rejection is that of the task.
\<close>

definition deserialized :: "'s world \<Rightarrow> string \<Rightarrow> jsval \<Rightarrow> error + jsval" where
  "deserialized W type v =
     (if type = ''app-state-sync-key'' \<and> truthy v then fromObject W v else Inr v)"

text \<open>
  What a key-value map holds for an identifier of a category after \<open>data\<close> was set on a
  store without the identifiers that \<open>data\<close> does not name: the value of the entry when
  there is one and it is present, the absent sentinel \<open>null\<close> otherwise.
\<close>

definition expected ::
  "(string \<times> (string \<times> jsval option) list) list \<Rightarrow> string \<Rightarrow> string \<Rightarrow> jsval" where
  "expected data type ident =
     (case map_of (entries data) (type, ident) of
        Some (Some v) \<Rightarrow> (if truthy v then v else Null)
      | _ \<Rightarrow> Null)"

text \<open>
  A value none of whose plain objects has the tagged form of a byte sequence: these are
  the values that the codec can return as they were.
\<close>

fun untagged :: "jsval \<Rightarrow> bool" where
  "untagged (Arr xs) = list_all untagged xs"
| "untagged (Obj kvs) = (tagged_data (Obj kvs) = None \<and> list_all (\<lambda>kv. untagged (snd kv)) kvs)"
| "untagged v = True"

text \<open>
  The values of JavaScript proper, where the property names of an object are distinct;
  and among them the values that a JSON text denotes, which have no byte sequence.
\<close>

fun proper :: "jsval \<Rightarrow> bool" where
  "proper (Arr xs) = list_all proper xs"
| "proper (Obj kvs) = (distinct (map fst kvs) \<and> list_all (\<lambda>kv. proper (snd kv)) kvs)"
| "proper v = True"

fun plain :: "jsval \<Rightarrow> bool" where
  "plain (Arr xs) = list_all plain xs"
| "plain (Obj kvs) = (distinct (map fst kvs) \<and> list_all (\<lambda>kv. plain (snd kv)) kvs)"
| "plain (Buf bs) = False"
| "plain v = True"

text \<open>
  What may follow a number, and what may follow a value inside an array or an object, in
  the text that \<open>print_json\<close> writes; and the text of a property of an object.
\<close>

definition number_end :: "string \<Rightarrow> bool" where
  "number_end r =
     (case r of [] \<Rightarrow> True
      | c # cs \<Rightarrow> digit_val c = None \<and> c \<noteq> CHR ''.'' \<and> c \<noteq> CHR ''e'' \<and> c \<noteq> CHR ''E'')"

definition value_end :: "string \<Rightarrow> bool" where
  "value_end r =
     (case r of [] \<Rightarrow> True | c # cs \<Rightarrow> c = CHR '','' \<or> c = CHR '']'' \<or> c = CHR ''}'')"

definition member_text :: "string \<times> jsval \<Rightarrow> string" where
  "member_text kv = quote (fst kv) @ CHR '':'' # print_json (snd kv)"

text \<open>
  Stores that fail: one whose fetch settles with a given outcome, one that rejects every
  request, and one that serves fetches and deletions and rejects every put.
\<close>

definition fixedFetchStore :: "error + GetObjectOutput \<Rightarrow> buckets S3Client" where
  "fixedFetchStore outcome = consistentStore \<lparr> getObject := (\<lambda>b k s. (outcome, s)) \<rparr>"

definition rejectingStore :: "buckets S3Client" where
  "rejectingStore =
     \<lparr> getObject = (\<lambda>b k s. (Inl ServiceFailure, s)),
       putObject = (\<lambda>b k body contentType s. (Inl ServiceFailure, s)),
       deleteObject = (\<lambda>b k s. (Inl ServiceFailure, s)) \<rparr>"

definition readOnlyStore :: "buckets S3Client" where
  "readOnlyStore = consistentStore \<lparr> putObject := (\<lambda>b k body contentType s. (Inl ServiceFailure, s)) \<rparr>"

text \<open>
  The world of the examples: the JSON text of the platform, the consistent store, and a
  deserializer that returns the object it is given.
\<close>

definition reference_world :: "buckets world" where
  "reference_world = \<lparr> json = ECMAScript_JSON, s3Client = consistentStore, fromObject = Inr \<rparr>"

text \<open>
  A deserializer that does not return what it is given, for the examples with app-state
  sync keys: of an object it keeps the properties \<open>keyData\<close>, \<open>fingerprint\<close> and
  \<open>timestamp\<close>, and it rejects every other value.
\<close>

definition example_fromObject :: "jsval \<Rightarrow> error + jsval" where
  "example_fromObject v =
     (case v of
        Obj kvs \<Rightarrow>
          Inr (Obj (filter (\<lambda>kv. fst kv = ''keyData'' \<or> fst kv = ''fingerprint''
                              \<or> fst kv = ''timestamp'') kvs))
      | _ \<Rightarrow> Inl TypeError)"

definition example_world :: "buckets world" where
  "example_world =
     \<lparr> json = ECMAScript_JSON, s3Client = consistentStore, fromObject = example_fromObject \<rparr>"

section \<open>Properties\<close>

subsection \<open>Object keys\<close>

lemma replace_global_compose:
  "replace_global (CHR '':'') ''-'' (replace_global (CHR ''/'') ''__'' k) =
   concat (map (\<lambda>c. if c = CHR ''/'' then ''__'' else if c = CHR '':'' then ''-'' else [c]) k)"
  by (induction k) simp_all

lemma fixFileName_Some:
  "fixFileName (Some k) =
   concat (map (\<lambda>c. if c = CHR ''/'' then ''__'' else if c = CHR '':'' then ''-'' else [c]) k)"
  by (simp add: fixFileName_def replace_global_compose Let_def)

lemma fixFileName_clean:
  "CHR ''/'' \<notin> set (fixFileName (Some k)) \<and> CHR '':'' \<notin> set (fixFileName (Some k))"
  unfolding fixFileName_Some by (induction k) simp_all

text \<open>
  C3. The three operations address the object \<open>prefix + sanitize(key)\<close>, where \<open>prefix\<close> is
  the prefix of the configuration, and the empty string when the configuration has none:
  the write is the put of this object key, the read leaves the state of the fetch of this
  object key, the removal that of its deletion. \<open>fixFileName\<close> puts \<open>__\<close> for every \<open>/\<close> and
  \<open>-\<close> for every \<open>:\<close>, so that its result has neither character, and gives the empty
  string for a missing key.
\<close>

theorem object_key_resolution:
  "writeData W \<lparr> bucket = b, prefix = Some p \<rparr> data k =
     putObject (s3Client W) b (p @ fixFileName (Some k))
       (JSON_stringify (json W) data) ''application/json''
   \<and> writeData W \<lparr> bucket = b, prefix = None \<rparr> data k =
     putObject (s3Client W) b (fixFileName (Some k))
       (JSON_stringify (json W) data) ''application/json''
   \<and> snd (readData W \<lparr> bucket = b, prefix = Some p \<rparr> k s) =
     snd (getObject (s3Client W) b (p @ fixFileName (Some k)) s)
   \<and> snd (readData W \<lparr> bucket = b, prefix = None \<rparr> k s) =
     snd (getObject (s3Client W) b (fixFileName (Some k)) s)
   \<and> removeData W \<lparr> bucket = b, prefix = Some p \<rparr> k s =
     (Inr (), snd (deleteObject (s3Client W) b (p @ fixFileName (Some k)) s))
   \<and> removeData W \<lparr> bucket = b, prefix = None \<rparr> k s =
     (Inr (), snd (deleteObject (s3Client W) b (fixFileName (Some k)) s))
   \<and> fixFileName (Some k) =
     concat (map (\<lambda>c. if c = CHR ''/'' then ''__'' else if c = CHR '':'' then ''-'' else [c]) k)
   \<and> CHR ''/'' \<notin> set (fixFileName (Some k))
   \<and> CHR '':'' \<notin> set (fixFileName (Some k))
   \<and> fixFileName None = []"
proof -
  have w: "writeData W config data k =
     putObject (s3Client W) (bucket config) (prefix_of config @ fixFileName (Some k))
       (JSON_stringify (json W) data) ''application/json''" for config
    by (simp add: writeData_def operationLock_acquire_def Let_def)
  have r: "snd (readData W config k s) =
     snd (getObject (s3Client W) (bucket config) (prefix_of config @ fixFileName (Some k)) s)"
    for config
    by (simp add: readData_def operationLock_acquire_def Let_def
        split: prod.splits sum.splits option.splits)
  have d: "removeData W config k s =
     (Inr (), snd (deleteObject (s3Client W) (bucket config)
                     (prefix_of config @ fixFileName (Some k)) s))" for config
    by (simp add: removeData_def operationLock_acquire_def Let_def
        split: prod.splits sum.splits)
  have n: "fixFileName None = []" by (simp add: fixFileName_def)
  have p1: "prefix_of \<lparr> bucket = b, prefix = Some p \<rparr> = p"
    and p2: "prefix_of \<lparr> bucket = b, prefix = None \<rparr> = []"
    by (simp_all add: prefix_of_def)
  from w [of "\<lparr> bucket = b, prefix = Some p \<rparr>"] w [of "\<lparr> bucket = b, prefix = None \<rparr>"]
    r [of "\<lparr> bucket = b, prefix = Some p \<rparr>"] r [of "\<lparr> bucket = b, prefix = None \<rparr>"]
    d [of "\<lparr> bucket = b, prefix = Some p \<rparr>"] d [of "\<lparr> bucket = b, prefix = None \<rparr>"]
    n fixFileName_Some [of k] fixFileName_clean [of k]
  show ?thesis by (simp add: p1 p2)
qed

text \<open>
  With the prefix \<^verbatim>\<open>auth/\<close> the key \<^verbatim>\<open>session-a/b:1.json\<close> is written to, read from and
  removed at the object \<^verbatim>\<open>auth/session-a__b-1.json\<close>; without a prefix, at
  \<^verbatim>\<open>session-a__b-1.json\<close>.
\<close>

theorem object_key_resolution_example:
  "fixFileName (Some ''session-a/b:1.json'') = ''session-a__b-1.json''
   \<and> snd (writeData reference_world \<lparr> bucket = ''sessions'', prefix = Some ''auth/'' \<rparr>
            (Num 7) ''session-a/b:1.json'' Map.empty)
       (''sessions'', ''auth/session-a__b-1.json'') = Some ''7''
   \<and> snd (writeData reference_world \<lparr> bucket = ''sessions'', prefix = None \<rparr>
            (Num 7) ''session-a/b:1.json'' Map.empty)
       (''sessions'', ''session-a__b-1.json'') = Some ''7''
   \<and> fst (readData reference_world \<lparr> bucket = ''sessions'', prefix = Some ''auth/'' \<rparr>
            ''session-a/b:1.json'' [(''sessions'', ''auth/session-a__b-1.json'') \<mapsto> ''7'']) = Inr (Num 7)
   \<and> snd (removeData reference_world \<lparr> bucket = ''sessions'', prefix = Some ''auth/'' \<rparr>
            ''session-a/b:1.json'' [(''sessions'', ''auth/session-a__b-1.json'') \<mapsto> ''7''])
       (''sessions'', ''auth/session-a__b-1.json'') = None"
proof -
  have f: "fixFileName (Some ''session-a/b:1.json'') = ''session-a__b-1.json''"
    by code_simp
  have t: "JSON_stringify (json reference_world) (Num 7) = ''7''"
    by code_simp
  have c: "s3Client reference_world = consistentStore"
    by (simp add: reference_world_def)
  have r: "fst (readData reference_world \<lparr> bucket = ''sessions'', prefix = Some ''auth/'' \<rparr>
            ''session-a/b:1.json'' [(''sessions'', ''auth/session-a__b-1.json'') \<mapsto> ''7'']) = Inr (Num 7)"
    by code_simp
  note inst = object_key_resolution [of reference_world "''sessions''" "''auth/''" "Num 7"
      "''session-a/b:1.json''" "[(''sessions'', ''auth/session-a__b-1.json'') \<mapsto> ''7'']"]
  from inst [THEN conjunct1]
  have w1: "writeData reference_world \<lparr> bucket = ''sessions'', prefix = Some ''auth/'' \<rparr>
       (Num 7) ''session-a/b:1.json'' =
     putObject consistentStore ''sessions'' ''auth/session-a__b-1.json'' ''7'' ''application/json''"
    by (simp only: f t c append.simps)
  from inst [THEN conjunct2, THEN conjunct1]
  have w2: "writeData reference_world \<lparr> bucket = ''sessions'', prefix = None \<rparr>
       (Num 7) ''session-a/b:1.json'' =
     putObject consistentStore ''sessions'' ''session-a__b-1.json'' ''7'' ''application/json''"
    by (simp only: f t c append.simps)
  from inst [THEN conjunct2, THEN conjunct2, THEN conjunct2, THEN conjunct2, THEN conjunct1]
  have d: "removeData reference_world \<lparr> bucket = ''sessions'', prefix = Some ''auth/'' \<rparr>
       ''session-a/b:1.json'' [(''sessions'', ''auth/session-a__b-1.json'') \<mapsto> ''7''] =
     (Inr (), snd (deleteObject consistentStore ''sessions'' ''auth/session-a__b-1.json''
        [(''sessions'', ''auth/session-a__b-1.json'') \<mapsto> ''7'']))"
    by (simp only: f t c append.simps)
  show ?thesis
    by (simp add: f r w1 w2 d consistentStore_def)
qed

subsection \<open>The operations on the consistent store\<close>

lemma writeData_consistent:
  "s3Client W = consistentStore \<Longrightarrow>
   writeData W config v key s =
     (Inr (), s((bucket config, objectKey_of config key) \<mapsto> JSON_stringify (json W) v))"
  by (simp add: writeData_def operationLock_acquire_def Let_def consistentStore_def objectKey_of_def)

lemma removeData_consistent:
  "s3Client W = consistentStore \<Longrightarrow>
   removeData W config key s = (Inr (), s((bucket config, objectKey_of config key) := None))"
  by (simp add: removeData_def operationLock_acquire_def Let_def consistentStore_def objectKey_of_def)

lemma readData_consistent:
  "s3Client W = consistentStore \<Longrightarrow>
   readData W config key s =
     (Inr (stored_value (json W) (s (bucket config, objectKey_of config key))), s)"
  by (simp add: readData_def operationLock_acquire_def Let_def consistentStore_def
      objectKey_of_def stored_value_def split: option.splits sum.splits)

subsection \<open>The tasks of keys.set on the consistent store\<close>

lemma keys_set_tasks_entries:
  "keys_set_tasks W config data = map (entry_task W config) (entries data)"
proof (induction data)
  case Nil
  then show ?case by (simp add: keys_set_tasks_def entries_def)
next
  case (Cons x data)
  obtain category es where x: "x = (category, es)" by (cases x)
  from Cons show ?case
    by (auto simp add: keys_set_tasks_def entries_def x entry_task_def file_of_def
        split: option.splits)
qed

lemma entry_task_consistent:
  "s3Client W = consistentStore \<Longrightarrow>
   entry_task W config e s =
     (Inr (), s((bucket config, objectKey_of config (file_of (fst e))) := entry_body (json W) (snd e)))"
  by (simp add: entry_task_def entry_body_def writeData_consistent removeData_consistent
      split: option.splits)

lemma settle_entries_consistent:
  "s3Client W = consistentStore \<Longrightarrow>
   settle (map (entry_task W config) es) s =
     (replicate (length es) (Inr ()),
      foldl (\<lambda>s e. s((bucket config, objectKey_of config (file_of (fst e))) := entry_body (json W) (snd e))) s es)"
  by (induction es arbitrary: s) (simp_all add: entry_task_consistent)

lemma fulfilled_replicate: "fulfilled (replicate n (Inr u)) = Inr (replicate n u)"
  by (induction n) simp_all

lemma keys_set_consistent:
  "s3Client W = consistentStore \<Longrightarrow>
   keys_set W config data s =
     (Inr (),
      foldl (\<lambda>s e. s((bucket config, objectKey_of config (file_of (fst e))) := entry_body (json W) (snd e)))
        s (entries data))"
  by (simp add: keys_set_def Promise_all_def keys_set_tasks_entries settle_entries_consistent
      fulfilled_replicate)

lemma foldl_upd_other:
  "K \<notin> k ` set es \<Longrightarrow> foldl (\<lambda>s e. s(k e := b e)) s es K = s K"
  by (induction es arbitrary: s) auto

lemma foldl_upd_member:
  "distinct (map k es) \<Longrightarrow> e \<in> set es \<Longrightarrow> foldl (\<lambda>s e. s(k e := b e)) s es (k e) = b e"
proof (induction es arbitrary: s)
  case Nil
  then show ?case by simp
next
  case (Cons a es)
  let ?f = "\<lambda>s e. s(k e := b e)"
  have step: "foldl ?f s (a # es) = foldl ?f (s(k a := b a)) es"
    by (simp only: foldl_Cons)
  show ?case
  proof (cases "e = a")
    case True
    from Cons.prems have "k a \<notin> k ` set es" by auto
    then have "foldl ?f (s(k a := b a)) es (k a) = (s(k a := b a)) (k a)"
      by (rule foldl_upd_other)
    then have "foldl ?f (s(k a := b a)) es (k a) = b a"
      by (simp only: fun_upd_same)
    with step True show ?thesis by (simp only:)
  next
    case False
    with Cons.prems have "e \<in> set es" "distinct (map k es)" by auto
    then have "foldl ?f (s(k a := b a)) es (k e) = b e" by (rule Cons.IH [rotated])
    with step show ?thesis by (simp only:)
  qed
qed

lemma foldl_upd_order:
  assumes "distinct (map k es)" and "distinct (map k es')" and "set es = set es'"
  shows "foldl (\<lambda>s e. s(k e := b e)) s es = foldl (\<lambda>s e. s(k e := b e)) s es'"
proof (rule ext)
  fix K
  show "foldl (\<lambda>s e. s(k e := b e)) s es K = foldl (\<lambda>s e. s(k e := b e)) s es' K"
  proof (cases "K \<in> k ` set es")
    case True
    then obtain e where e: "e \<in> set es" "K = k e" by auto
    from assms(1) e(1) have "foldl (\<lambda>s e. s(k e := b e)) s es (k e) = b e"
      by (rule foldl_upd_member)
    moreover from e(1) assms(3) have "e \<in> set es'" by simp
    with assms(2) have "foldl (\<lambda>s e. s(k e := b e)) s es' (k e) = b e"
      by (rule foldl_upd_member)
    ultimately show ?thesis by (simp add: e(2))
  next
    case False
    then have "foldl (\<lambda>s e. s(k e := b e)) s es K = s K"
      by (rule foldl_upd_other)
    moreover from False assms(3) have "K \<notin> k ` set es'" by simp
    then have "foldl (\<lambda>s e. s(k e := b e)) s es' K = s K"
      by (rule foldl_upd_other)
    ultimately show ?thesis by simp
  qed
qed

text \<open>
  The tasks of \<open>keys.set\<close> are in flight together and the store serves the requests of
  different object keys in an order of its own. When the object keys of the entries are
  distinct the order does not matter: \<open>keys.set\<close> leaves the same store for every order
  of the same entries.
\<close>

lemma keys_set_order_irrelevant:
  assumes "s3Client W = consistentStore"
    and "distinct (map (\<lambda>e. objectKey_of config (file_of (fst e))) (entries data))"
    and "distinct (map (\<lambda>e. objectKey_of config (file_of (fst e))) (entries data'))"
    and "set (entries data) = set (entries data')"
  shows "keys_set W config data s = keys_set W config data' s"
proof -
  let ?k = "\<lambda>e. (bucket config, objectKey_of config (file_of (fst e)))"
  have d: "distinct (map ?k es)"
    if "distinct (map (\<lambda>e. objectKey_of config (file_of (fst e))) es)" for es :: "((string \<times> string) \<times> jsval option) list"
    using that by (induction es) auto
  from assms(2) have "distinct (map ?k (entries data))" by (rule d)
  moreover from assms(3) have "distinct (map ?k (entries data'))" by (rule d)
  ultimately have "foldl (\<lambda>s e. s(?k e := entry_body (json W) (snd e))) s (entries data)
      = foldl (\<lambda>s e. s(?k e := entry_body (json W) (snd e))) s (entries data')"
    using assms(4) by (rule foldl_upd_order)
  then show ?thesis
    by (simp add: keys_set_consistent [OF assms(1)])
qed

lemma distinct_map_inj: "distinct xs \<Longrightarrow> inj_on f (set xs) \<Longrightarrow> distinct (map f xs)"
  by (simp add: distinct_map)

subsection \<open>The codec\<close>

lemma byte_of_uint: "byte_of (Num (uint b)) = Some b"
proof -
  have "uint b < 2 ^ LENGTH(8)" by (rule uint_lt2p)
  then show ?thesis by simp
qed

lemma bytes_of_map: "bytes_of (map (\<lambda>b. Num (uint b)) bs) = Some bs"
  by (induction bs) (simp_all add: byte_of_uint del: byte_of.simps)

lemma tagged_data_tagged: "tagged_data (tagged bs) = Some bs"
  by (simp add: tagged_data_def tag_bytes_def tagged_def bytes_of_map)

lemma tagged_data_Arr: "tagged_data (Arr xs) = None"
  by (simp add: tagged_data_def)

lemma reviver_tagged: "BufferJSON_reviver (tagged bs) = Buf bs"
  by (simp add: BufferJSON_reviver_def tagged_data_tagged)

lemma decode_Num_list: "map (decode \<circ> (\<lambda>b. Num (uint b))) bs = map (\<lambda>b. Num (uint b)) bs"
  by (induction bs) (simp_all add: BufferJSON_reviver_def tagged_data_def)

lemma decode_tagged: "decode (tagged bs) = Buf bs"
proof -
  have "decode (tagged bs) = BufferJSON_reviver (tagged bs)"
    by (simp add: tagged_def decode_Num_list BufferJSON_reviver_def [of "Str _"]
        BufferJSON_reviver_def [of "Arr _"] tagged_data_def [of "Str _"] tagged_data_Arr)
  then show ?thesis by (simp add: reviver_tagged)
qed

lemma encode_Buf: "encode (Buf bs) = tagged bs"
  by (simp add: BufferJSON_replacer_def)

text \<open>
  The structural \<open>encode\<close> is the traversal of \<open>JSON.stringify\<close>: the replacer is applied
  to a value first, and the serialization descends into what it returned.
\<close>

lemma encode_descends:
  "encode v =
     (case BufferJSON_replacer v of
        Arr xs \<Rightarrow> Arr (map encode xs)
      | Obj kvs \<Rightarrow> Obj (map (map_prod id encode) kvs)
      | w \<Rightarrow> w)"
proof (cases v)
  case (Buf bs)
  have "map encode (map (\<lambda>b. Num (uint b)) bs) = map (\<lambda>b. Num (uint b)) bs"
    by (induction bs) simp_all
  with Buf show ?thesis
    by (simp add: BufferJSON_replacer_def tagged_def)
qed (simp_all add: BufferJSON_replacer_def)

lemma reviver_plain:
  "tagged_data v = None \<Longrightarrow> BufferJSON_reviver v = v"
  by (simp add: BufferJSON_reviver_def)

lemma reviver_Obj_cases:
  "BufferJSON_reviver (Obj kvs) = Obj kvs \<longleftrightarrow> tagged_data (Obj kvs) = None"
  by (simp add: BufferJSON_reviver_def split: option.splits)

lemma map_values_fixed:
  "\<forall>kv \<in> set kvs. f (snd kv) = snd kv \<longleftrightarrow> P (snd kv) \<Longrightarrow>
   (map (map_prod id f) kvs = kvs \<longleftrightarrow> list_all (\<lambda>kv. P (snd kv)) kvs)"
  by (induction kvs) auto

lemma map_prod_twice: "map_prod id g (map_prod id f kv) = map_prod id (\<lambda>x. g (f x)) kv"
  by (cases kv) simp

lemma map_elements_fixed:
  "(\<And>x. x \<in> set xs \<Longrightarrow> (f x = x \<longleftrightarrow> P x)) \<Longrightarrow> (map f xs = xs \<longleftrightarrow> list_all P xs)"
  by (induction xs) auto

lemma decode_encode_iff: "decode (encode v) = v \<longleftrightarrow> untagged v"
proof (induction v)
  case (Arr xs)
  have "map (\<lambda>x. decode (encode x)) xs = xs \<longleftrightarrow> list_all untagged xs"
    by (rule map_elements_fixed) (rule Arr)
  then show ?case
    by (simp add: reviver_plain tagged_data_Arr comp_def)
next
  case (Obj kvs)
  let ?kvs' = "map (map_prod id (\<lambda>x. decode (encode x))) kvs"
  have m: "?kvs' = kvs \<longleftrightarrow> list_all (\<lambda>kv. untagged (snd kv)) kvs"
  proof (rule map_values_fixed, rule ballI)
    fix kv
    assume "kv \<in> set kvs"
    then show "decode (encode (snd kv)) = snd kv \<longleftrightarrow> untagged (snd kv)"
      by (rule Obj) (cases kv, simp)
  qed
  have d: "decode (encode (Obj kvs)) = BufferJSON_reviver (Obj ?kvs')"
    by (simp add: comp_def map_prod_twice)
  show ?case
  proof (cases "?kvs' = kvs")
    case True
    with m d show ?thesis
      by (simp add: reviver_Obj_cases)
  next
    case False
    then have "BufferJSON_reviver (Obj ?kvs') \<noteq> Obj kvs"
      by (auto simp add: BufferJSON_reviver_def split: option.splits)
    with m d False show ?thesis by simp
  qed
next
  case (Buf bs)
  then show ?case by (simp add: encode_Buf decode_tagged del: encode.simps)
qed (simp_all add: BufferJSON_reviver_def tagged_data_def)

lemma read_after_write:
  assumes "s3Client W = consistentStore"
    and "stringify_text (json W) (encode v) \<noteq> []"
    and "parse_text (json W) (stringify_text (json W) (encode v)) = Some (encode v)"
  shows "fst (readData W config key (snd (writeData W config v key s))) = Inr (decode (encode v))"
  using assms
  by (simp add: writeData_consistent readData_consistent stored_value_def JSON_stringify_def
      JSON_parse_def)

subsection \<open>Failures of the store and of the parser\<close>

lemma readData_outcome:
  "fst (readData W config key s) =
     (case fst (getObject (s3Client W) (bucket config) (objectKey_of config key) s) of
        Inl e \<Rightarrow> Inr Null
      | Inr r \<Rightarrow>
          (case Body r of
             None \<Rightarrow> Inr Null
           | Some (Inl e) \<Rightarrow> Inr Null
           | Some (Inr text) \<Rightarrow>
               (if text \<noteq> []
                then (case parse_text (json W) text of None \<Rightarrow> Inr Null | Some w \<Rightarrow> Inr (decode w))
                else Inr Null)))"
  by (simp add: readData_def operationLock_acquire_def Let_def objectKey_of_def JSON_parse_def
      split: prod.splits sum.splits option.splits)

lemma readData_never_rejects: "\<exists>v. fst (readData W config key s) = Inr v"
  by (simp add: readData_outcome split: sum.splits option.splits)

lemma removeData_never_rejects: "fst (removeData W config key s) = Inr ()"
  by (simp add: removeData_def operationLock_acquire_def Let_def split: prod.splits sum.splits)

text \<open>
  C4. With every client and from every state, \<open>readData\<close> is fulfilled with a value and
  \<open>removeData\<close> is fulfilled: neither rejects. When the fetch is rejected, or reading the
  stream of the body fails, the value read is the absent sentinel. On the consistent store
  a key that has no object reads as the absent sentinel, and its removal is fulfilled and
  changes nothing.
\<close>

theorem read_and_remove_never_reject:
  "(\<exists>v. fst (readData W config key s) = Inr v)
   \<and> fst (removeData W config key s) = Inr ()
   \<and> (fst (getObject (s3Client W) (bucket config) (objectKey_of config key) s) = Inl e
        \<longrightarrow> fst (readData W config key s) = Inr Null)
   \<and> (fst (getObject (s3Client W) (bucket config) (objectKey_of config key) s) = Inr r
        \<and> Body r = Some (Inl e)
        \<longrightarrow> fst (readData W config key s) = Inr Null)
   \<and> (s3Client W' = consistentStore \<and> t (bucket config, objectKey_of config key) = None
        \<longrightarrow> readData W' config key t = (Inr Null, t) \<and> removeData W' config key t = (Inr (), t))"
proof -
  have a: "fst (readData W config key s) = Inr Null"
    if "fst (getObject (s3Client W) (bucket config) (objectKey_of config key) s) = Inl e"
    using that by (simp add: readData_outcome)
  have b: "fst (readData W config key s) = Inr Null"
    if "fst (getObject (s3Client W) (bucket config) (objectKey_of config key) s) = Inr r"
      "Body r = Some (Inl e)"
    using that by (simp add: readData_outcome)
  have c: "readData W' config key t = (Inr Null, t) \<and> removeData W' config key t = (Inr (), t)"
    if "s3Client W' = consistentStore" "t (bucket config, objectKey_of config key) = None"
    using that by (simp add: readData_consistent removeData_consistent stored_value_def fun_upd_idem)
  from readData_never_rejects [of W config key s] removeData_never_rejects [of W config key s] a b c
  show ?thesis by blast
qed

theorem read_and_remove_never_reject_failing_store:
  "fst (readData (reference_world \<lparr> s3Client := rejectingStore \<rparr>)
          \<lparr> bucket = ''sessions'', prefix = None \<rparr> ''pre-key-1.json'' Map.empty) = Inr Null
   \<and> fst (removeData (reference_world \<lparr> s3Client := rejectingStore \<rparr>)
          \<lparr> bucket = ''sessions'', prefix = None \<rparr> ''pre-key-1.json'' Map.empty) = Inr ()
   \<and> fst (readData (reference_world \<lparr> s3Client := fixedFetchStore (Inr \<lparr> Body = Some (Inl StreamFailure) \<rparr>) \<rparr>)
          \<lparr> bucket = ''sessions'', prefix = None \<rparr> ''pre-key-1.json'' Map.empty) = Inr Null
   \<and> readData reference_world \<lparr> bucket = ''sessions'', prefix = None \<rparr> ''pre-key-1.json'' Map.empty
        = (Inr Null, Map.empty)
   \<and> removeData reference_world \<lparr> bucket = ''sessions'', prefix = None \<rparr> ''pre-key-1.json'' Map.empty
        = (Inr (), Map.empty)"
proof -
  let ?config = "\<lparr> bucket = ''sessions'', prefix = None \<rparr>"
  let ?key = "''pre-key-1.json''"
  let ?W1 = "reference_world \<lparr> s3Client := rejectingStore \<rparr>"
  let ?r = "\<lparr> Body = Some (Inl StreamFailure) \<rparr>"
  let ?W2 = "reference_world \<lparr> s3Client := fixedFetchStore (Inr ?r) \<rparr>"
  have 1: "fst (getObject (s3Client ?W1) (bucket ?config) (objectKey_of ?config ?key) Map.empty)
           = Inl ServiceFailure"
    by (simp add: rejectingStore_def)
  have 2: "fst (getObject (s3Client ?W2) (bucket ?config) (objectKey_of ?config ?key) Map.empty)
           = Inr ?r \<and> Body ?r = Some (Inl StreamFailure)"
    by (simp add: fixedFetchStore_def)
  have 3: "s3Client reference_world = consistentStore
           \<and> (Map.empty :: buckets) (bucket ?config, objectKey_of ?config ?key) = None"
    by (simp add: reference_world_def)
  from read_and_remove_never_reject [of ?W1 ?config ?key Map.empty ServiceFailure ?r reference_world Map.empty]
    read_and_remove_never_reject [of ?W2 ?config ?key Map.empty StreamFailure ?r reference_world Map.empty]
    1 2 3
  show ?thesis by blast
qed

text \<open>
  C6, as amended. When the body of the stored object is a text that \<open>JSON.parse\<close> refuses,
  the SyntaxError is caught with the failures of the fetch: \<open>readData\<close> is fulfilled with the
  absent sentinel.
\<close>

theorem malformed_json_reads_as_absent:
  "fst (getObject (s3Client W) (bucket config) (objectKey_of config key) s) = Inr r
   \<and> Body r = Some (Inr text) \<and> text \<noteq> [] \<and> parse_text (json W) text = None
   \<longrightarrow> JSON_parse (json W) text = Inl SyntaxError \<and> fst (readData W config key s) = Inr Null"
  by (simp add: readData_outcome JSON_parse_def)

theorem malformed_json_reads_as_absent_example:
  "JSON_parse ECMAScript_JSON ''{foo:bar}'' = Inl SyntaxError
   \<and> fst (readData reference_world \<lparr> bucket = ''sessions'', prefix = Some ''auth/'' \<rparr> ''creds.json''
            [(''sessions'', ''auth/creds.json'') \<mapsto> ''{foo:bar}'']) = Inr Null"
proof -
  let ?config = "\<lparr> bucket = ''sessions'', prefix = Some ''auth/'' \<rparr>"
  let ?s = "[(''sessions'', ''auth/creds.json'') \<mapsto> ''{foo:bar}'']"
  let ?r = "\<lparr> Body = Some (Inr ''{foo:bar}'') \<rparr>"
  have g: "fst (getObject (s3Client reference_world) (bucket ?config)
                 (objectKey_of ?config ''creds.json'') ?s) = Inr ?r"
    by code_simp
  have p: "parse_text (json reference_world) ''{foo:bar}'' = None"
    by code_simp
  have j: "json reference_world = ECMAScript_JSON"
    by (simp add: reference_world_def)
  from malformed_json_reads_as_absent [of reference_world ?config "''creds.json''" ?s ?r "''{foo:bar}''"]
    g p
  have "JSON_parse (json reference_world) ''{foo:bar}'' = Inl SyntaxError
        \<and> fst (readData reference_world ?config ''creds.json'' ?s) = Inr Null"
    by simp
  then show ?thesis by (simp only: j)
qed

text \<open>
  The claim as stated fails: the stored text \<open>[1,2\<close> does not parse, and the read is
  fulfilled with \<open>null\<close> instead of being rejected.
\<close>

theorem parse_failure_is_swallowed:
  "JSON_parse ECMAScript_JSON ''[1,2'' = Inl SyntaxError
   \<and> readData reference_world \<lparr> bucket = ''sessions'', prefix = None \<rparr> ''session-7.json''
        [(''sessions'', ''session-7.json'') \<mapsto> ''[1,2'']
      = (Inr Null, [(''sessions'', ''session-7.json'') \<mapsto> ''[1,2''])"
proof -
  have a: "JSON_parse ECMAScript_JSON ''[1,2'' = Inl SyntaxError"
    by code_simp
  have b: "s3Client reference_world = consistentStore" "json reference_world = ECMAScript_JSON"
    by (simp_all add: reference_world_def)
  have c: "objectKey_of \<lparr> bucket = ''sessions'', prefix = None \<rparr> ''session-7.json'' = ''session-7.json''"
    by code_simp
  show ?thesis
    by (simp add: a b c readData_consistent stored_value_def)
qed

text \<open>
  C9. When the fetch succeeds and the body is missing or is the empty text, \<open>readData\<close>
  is fulfilled with the absent sentinel, and the parser has no part in it: the outcome is
  the same with every other JSON layer in place of the one of the world.
\<close>

theorem empty_body_reads_as_absent:
  "fst (getObject (s3Client W) (bucket config) (objectKey_of config key) s) = Inr r
   \<and> (Body r = None \<or> Body r = Some (Inr []))
   \<longrightarrow> fst (readData W config key s) = Inr Null
     \<and> readData (W \<lparr> json := J \<rparr>) config key s = readData W config key s"
proof -
  have "readData (W \<lparr> json := J \<rparr>) config key s = readData W config key s"
    if "fst (getObject (s3Client W) (bucket config) (objectKey_of config key) s) = Inr r"
      "Body r = None \<or> Body r = Some (Inr [])"
    using that
    by (auto simp add: readData_def operationLock_acquire_def Let_def objectKey_of_def
        split: prod.splits sum.splits option.splits)
  then show ?thesis
    by (auto simp add: readData_outcome)
qed

theorem empty_body_reads_as_absent_example:
  "fst (readData (reference_world \<lparr> json := \<lparr> stringify_text = print_json, parse_text = (\<lambda>text. Some (Bool True)) \<rparr> \<rparr>)
          \<lparr> bucket = ''sessions'', prefix = None \<rparr> ''creds.json''
          [(''sessions'', ''creds.json'') \<mapsto> []]) = Inr Null
   \<and> fst (readData (reference_world \<lparr> s3Client := fixedFetchStore (Inr \<lparr> Body = None \<rparr>) \<rparr>)
          \<lparr> bucket = ''sessions'', prefix = None \<rparr> ''creds.json'' Map.empty) = Inr Null"
proof -
  let ?config = "\<lparr> bucket = ''sessions'', prefix = None \<rparr>"
  let ?J = "\<lparr> stringify_text = print_json, parse_text = (\<lambda>text. Some (Bool True)) \<rparr>"
  let ?s = "[(''sessions'', ''creds.json'') \<mapsto> []] :: buckets"
  let ?W2 = "reference_world \<lparr> s3Client := fixedFetchStore (Inr \<lparr> Body = None \<rparr>) \<rparr>"
  have 1: "fst (getObject (s3Client reference_world) (bucket ?config) (objectKey_of ?config ''creds.json'') ?s)
           = Inr \<lparr> Body = Some (Inr []) \<rparr>"
    by code_simp
  have 2: "fst (getObject (s3Client ?W2) (bucket ?config) (objectKey_of ?config ''creds.json'') Map.empty)
           = Inr \<lparr> Body = None \<rparr>"
    by (simp add: fixedFetchStore_def)
  from empty_body_reads_as_absent [of reference_world ?config "''creds.json''" ?s "\<lparr> Body = Some (Inr []) \<rparr>" ?J]
    empty_body_reads_as_absent [of ?W2 ?config "''creds.json''" Map.empty "\<lparr> Body = None \<rparr>" ?J]
    1 2
  show ?thesis by simp
qed

subsection \<open>Initialization and the credentials\<close>

lemma useS3AuthState_handle:
  "\<exists>r s'. readData W config ''creds.json'' s = (Inr r, s')
     \<and> useS3AuthState W config d s =
         (Inr \<lparr> state_creds = (if truthy r then r else d),
                 state_keys_get = keys_get W config,
                 state_keys_set = keys_set W config,
                 saveCreds = writeData W config (if truthy r then r else d) ''creds.json'' \<rparr>, s')"
proof -
  obtain r where "fst (readData W config ''creds.json'' s) = Inr r"
    using readData_never_rejects [of W config "''creds.json''" s] by blast
  then have rd: "readData W config ''creds.json'' s = (Inr r, snd (readData W config ''creds.json'' s))"
    by (cases "readData W config ''creds.json'' s") simp
  have "useS3AuthState W config d s =
         (Inr \<lparr> state_creds = (if truthy r then r else d),
                 state_keys_get = keys_get W config,
                 state_keys_set = keys_set W config,
                 saveCreds = writeData W config (if truthy r then r else d) ''creds.json'' \<rparr>,
          snd (readData W config ''creds.json'' s))"
    unfolding useS3AuthState_def by (subst rd) (simp add: Let_def)
  with rd show ?thesis by blast
qed

subsection \<open>Rejected writes\<close>

lemma writeData_is_put:
  "writeData W config v key =
     putObject (s3Client W) (bucket config) (objectKey_of config key)
       (JSON_stringify (json W) v) ''application/json''"
  by (simp add: writeData_def operationLock_acquire_def Let_def objectKey_of_def)

lemma fulfilled_rejects_iff: "isl (fulfilled rs) \<longleftrightarrow> (\<exists>r \<in> set rs. isl r)"
  by (induction rs rule: fulfilled.induct) (auto split: sum.splits)

lemma fst_settle_Cons: "fst (settle (t # ts) s) = fst (t s) # fst (settle ts (snd (t s)))"
  by (simp split: prod.splits)

lemma length_settle: "length (fst (settle ts s)) = length ts"
  by (induction ts arbitrary: s) (simp_all add: fst_settle_Cons del: settle.simps(2))

lemma keys_set_rejects_iff:
  "isl (fst (keys_set W config data s))
     \<longleftrightarrow> (\<exists>r \<in> set (fst (settle (keys_set_tasks W config data) s)). isl r)"
  by (auto simp add: keys_set_def Promise_all_def fulfilled_rejects_iff [symmetric]
      split: prod.splits sum.splits)

lemma settle_rejecting_task:
  "t \<in> set ts \<Longrightarrow> \<forall>s. isl (fst (t s)) \<Longrightarrow> \<exists>r \<in> set (fst (settle ts s)). isl r"
proof (induction ts arbitrary: s)
  case Nil
  then show ?case by simp
next
  case (Cons a ts)
  show ?case
  proof (cases "t = a")
    case True
    with Cons.prems(2) have "isl (fst (a s))" by simp
    then show ?thesis by (auto split: prod.splits)
  next
    case False
    with Cons.prems have "t \<in> set ts" by simp
    then have "\<exists>r \<in> set (fst (settle ts (snd (a s)))). isl r"
      using Cons.prems(2) by (rule Cons.IH)
    then show ?thesis by (auto split: prod.splits)
  qed
qed

lemma settle_outcome_is_write:
  "j < length es \<Longrightarrow> isl (fst (settle (map (entry_task W config) es) s) ! j)
     \<Longrightarrow> present (snd (es ! j))"
proof (induction es arbitrary: s j)
  case Nil
  then show ?case by simp
next
  case (Cons e es)
  obtain r s' where a: "entry_task W config e s = (r, s')" by (cases "entry_task W config e s")
  show ?case
  proof (cases j)
    case 0
    with Cons.prems a have "isl r" by (simp split: prod.splits)
    with a have "isl (fst (entry_task W config e s))" by simp
    then have "present (snd e)"
      by (auto simp add: entry_task_def present_def removeData_never_rejects split: option.splits if_splits)
    with 0 show ?thesis by simp
  next
    case (Suc k)
    with Cons.prems a have "k < length es" "isl (fst (settle (map (entry_task W config) es) s') ! k)"
      by (simp_all split: prod.splits)
    then have "present (snd (es ! k))" by (rule Cons.IH)
    with Suc show ?thesis by simp
  qed
qed

text \<open>
  C5. Nothing catches a rejected write. \<open>saveCreds\<close> of a handle is the put of
  \<open>creds.json\<close> itself, so it settles as the put does. \<open>keys.set\<close> is rejected exactly when
  one of the tasks it started is rejected, a rejected task is always a write (of a present
  value), and \<open>keys.set\<close> is rejected whenever \<open>data\<close> has a present value the put of which
  the store rejects.
\<close>

theorem write_failures_propagate:
  "(fst (useS3AuthState W config initAuthCreds s) = Inr h
      \<longrightarrow> saveCreds h =
            putObject (s3Client W) (bucket config) (objectKey_of config ''creds.json'')
              (JSON_stringify (json W) (state_creds h)) ''application/json'')
   \<and> (isl (fst (keys_set W config data s))
        \<longleftrightarrow> (\<exists>j < length (entries data). isl (fst (settle (keys_set_tasks W config data) s) ! j)))
   \<and> (\<forall>j < length (entries data). isl (fst (settle (keys_set_tasks W config data) s) ! j)
        \<longrightarrow> present (snd (entries data ! j)))
   \<and> (e \<in> set (entries data) \<and> snd e = Some v \<and> truthy v
        \<and> (\<forall>t. isl (fst (putObject (s3Client W) (bucket config) (objectKey_of config (file_of (fst e)))
                             (JSON_stringify (json W) v) ''application/json'' t)))
      \<longrightarrow> isl (fst (keys_set W config data s)))"
proof -
  let ?out = "fst (settle (keys_set_tasks W config data) s)"
  have len: "length ?out = length (entries data)"
    by (simp add: length_settle keys_set_tasks_entries)
  have a: "saveCreds h =
            putObject (s3Client W) (bucket config) (objectKey_of config ''creds.json'')
              (JSON_stringify (json W) (state_creds h)) ''application/json''"
    if "fst (useS3AuthState W config initAuthCreds s) = Inr h"
    using that useS3AuthState_handle [of W config s initAuthCreds]
    by (auto simp add: writeData_is_put)
  have "(\<exists>r \<in> set ?out. isl r) \<longleftrightarrow> (\<exists>j < length ?out. isl (?out ! j))"
    by (metis in_set_conv_nth)
  then have b: "isl (fst (keys_set W config data s)) \<longleftrightarrow> (\<exists>j < length (entries data). isl (?out ! j))"
    by (simp only: keys_set_rejects_iff len)
  have c: "\<forall>j < length (entries data). isl (?out ! j) \<longrightarrow> present (snd (entries data ! j))"
    using settle_outcome_is_write [of _ "entries data" W config s]
    by (simp add: keys_set_tasks_entries)
  have d: "isl (fst (keys_set W config data s))"
    if "e \<in> set (entries data)" "snd e = Some v" "truthy v"
      "\<forall>t. isl (fst (putObject (s3Client W) (bucket config) (objectKey_of config (file_of (fst e)))
                             (JSON_stringify (json W) v) ''application/json'' t))"
  proof -
    from that(2,3) have "entry_task W config e = writeData W config v (file_of (fst e))"
      by (simp add: entry_task_def)
    with that(4) have "\<forall>t. isl (fst (entry_task W config e t))"
      by (simp add: writeData_is_put)
    moreover from that(1) have "entry_task W config e \<in> set (keys_set_tasks W config data)"
      by (simp add: keys_set_tasks_entries)
    ultimately have "\<exists>r \<in> set ?out. isl r"
      by (rule settle_rejecting_task [rotated])
    then show ?thesis by (simp add: keys_set_rejects_iff)
  qed
  from a b c d show ?thesis by blast
qed

text \<open>On the store that rejects every put, \<open>saveCreds\<close> and \<open>keys.set\<close> are rejected.\<close>

theorem write_failures_propagate_read_only_store:
  "(\<exists>h. fst (useS3AuthState (reference_world \<lparr> s3Client := readOnlyStore \<rparr>)
              \<lparr> bucket = ''sessions'', prefix = None \<rparr> (Obj [(''registrationId'', Num 7)]) Map.empty) = Inr h
        \<and> fst (saveCreds h Map.empty) = Inl ServiceFailure)
   \<and> isl (fst (keys_set (reference_world \<lparr> s3Client := readOnlyStore \<rparr>)
          \<lparr> bucket = ''sessions'', prefix = None \<rparr>
          [(''pre-key'', [(''1'', Some (Obj [(''foo'', Str ''bar'')])), (''2'', Some Null)])] Map.empty))"
proof -
  let ?W = "reference_world \<lparr> s3Client := readOnlyStore \<rparr>"
  let ?config = "\<lparr> bucket = ''sessions'', prefix = None \<rparr>"
  let ?d = "Obj [(''registrationId'', Num 7)]"
  let ?data = "[(''pre-key'', [(''1'', Some (Obj [(''foo'', Str ''bar'')])), (''2'', Some Null)])]"
  let ?e = "((''pre-key'', ''1''), Some (Obj [(''foo'', Str ''bar'')]))"
  let ?v = "Obj [(''foo'', Str ''bar'')]"
  obtain h where h: "fst (useS3AuthState ?W ?config ?d Map.empty) = Inr h"
    using useS3AuthState_handle [of ?W ?config Map.empty ?d] by auto
  have put: "putObject (s3Client ?W) b k body c t = (Inl ServiceFailure, t)" for b k body c t
    by (simp add: readOnlyStore_def)
  have e: "?e \<in> set (entries ?data) \<and> snd ?e = Some ?v \<and> truthy ?v"
    by (simp add: entries_def)
  note inst = write_failures_propagate [of ?W ?config ?d Map.empty h ?data ?e ?v]
  from inst h have "saveCreds h =
      putObject (s3Client ?W) (bucket ?config) (objectKey_of ?config ''creds.json'')
        (JSON_stringify (json ?W) (state_creds h)) ''application/json''"
    by blast
  then have "fst (saveCreds h Map.empty) = Inl ServiceFailure"
    by (simp only: put fst_conv)
  moreover have "\<forall>t. isl (fst (putObject (s3Client ?W) (bucket ?config)
                         (objectKey_of ?config (file_of (fst ?e)))
                         (JSON_stringify (json ?W) ?v) ''application/json'' t))"
    by (simp only: put fst_conv sum.disc simp_thms)
  with inst e have "isl (fst (keys_set ?W ?config ?data Map.empty))"
    by blast
  ultimately show ?thesis using h by blast
qed

subsection \<open>Falsy values in keys.set\<close>

lemma falsy_values: "\<not> truthy v \<longleftrightarrow> v = Null \<or> v = Bool False \<or> v = Num 0 \<or> v = Str []"
  by (cases v) auto

lemma keys_set_one_absent:
  assumes "\<not> present x"
  shows "keys_set W config [(category, [(ident, x)])] s
            = removeData W config (file_of (category, ident)) s"
proof -
  have "keys_set_tasks W config [(category, [(ident, x)])]
          = [removeData W config (file_of (category, ident))]"
    using assms
    by (auto simp add: keys_set_tasks_entries entries_def entry_task_def present_def
        split: option.splits)
  moreover obtain s' where "removeData W config (file_of (category, ident)) s = (Inr (), s')"
    using removeData_never_rejects [of W config "file_of (category, ident)" s]
    by (cases "removeData W config (file_of (category, ident)) s") auto
  ultimately show ?thesis
    by (simp add: keys_set_def Promise_all_def)
qed

text \<open>
  C10. The falsy values are \<open>null\<close>, \<open>false\<close>, \<open>0\<close> and the empty string (and
  \<open>undefined\<close>, the entry \<open>None\<close>). \<open>keys.set\<close> starts one task for each entry of \<open>data\<close>:
  the removal of the key when the value is falsy, the write of the value when it is truthy.
  With a single falsy entry \<open>keys.set\<close> is the removal of its key, and on the consistent
  store the object of the key does not exist afterwards, whatever was stored before.
\<close>

theorem falsy_values_are_removed:
  "(\<not> truthy v \<longleftrightarrow> v = Null \<or> v = Bool False \<or> v = Num 0 \<or> v = Str [])
   \<and> length (keys_set_tasks W config data) = length (entries data)
   \<and> (\<forall>j < length (entries data).
        \<not> present (snd (entries data ! j))
        \<longrightarrow> keys_set_tasks W config data ! j = removeData W config (file_of (fst (entries data ! j))))
   \<and> (\<forall>j < length (entries data).
        snd (entries data ! j) = Some v \<and> truthy v
        \<longrightarrow> keys_set_tasks W config data ! j = writeData W config v (file_of (fst (entries data ! j))))
   \<and> (\<not> present x
        \<longrightarrow> keys_set W config [(category, [(ident, x)])] s
            = removeData W config (file_of (category, ident)) s)
   \<and> (s3Client W' = consistentStore \<and> \<not> present x
        \<longrightarrow> snd (keys_set W' config [(category, [(ident, x)])] t)
              (bucket config, objectKey_of config (file_of (category, ident))) = None)"
proof -
  have a: "keys_set_tasks W config data ! j = removeData W config (file_of (fst (entries data ! j)))"
    if "j < length (entries data)" "\<not> present (snd (entries data ! j))" for j
    using that
    by (auto simp add: keys_set_tasks_entries entry_task_def present_def split: option.splits)
  have b: "keys_set_tasks W config data ! j = writeData W config v (file_of (fst (entries data ! j)))"
    if "j < length (entries data)" "snd (entries data ! j) = Some v" "truthy v" for j
    using that
    by (simp add: keys_set_tasks_entries entry_task_def)
  have c: "keys_set W config [(category, [(ident, x)])] s
            = removeData W config (file_of (category, ident)) s"
    if "\<not> present x"
    using that by (rule keys_set_one_absent)
  have d: "snd (keys_set W' config [(category, [(ident, x)])] t)
              (bucket config, objectKey_of config (file_of (category, ident))) = None"
    if "s3Client W' = consistentStore" "\<not> present x"
    using that by (simp add: keys_set_one_absent removeData_consistent)
  have l: "length (keys_set_tasks W config data) = length (entries data)"
    by (simp add: keys_set_tasks_entries)
  from falsy_values [of v] l a b c d show ?thesis by blast
qed

text \<open>
  The entry \<open>0\<close> starts a removal and the entry \<open>5\<close> a write; setting a pre-key to
  \<open>0\<close>, to the empty string or to \<open>false\<close> deletes its object.
\<close>

theorem falsy_values_are_removed_example:
  "keys_set_tasks reference_world \<lparr> bucket = ''sessions'', prefix = None \<rparr>
     [(''pre-key'', [(''7'', Some (Num 0)), (''8'', Some (Num 5))])] ! 0
   = removeData reference_world \<lparr> bucket = ''sessions'', prefix = None \<rparr> ''pre-key-7.json''
   \<and> keys_set_tasks reference_world \<lparr> bucket = ''sessions'', prefix = None \<rparr>
     [(''pre-key'', [(''7'', Some (Num 0)), (''8'', Some (Num 5))])] ! 1
   = writeData reference_world \<lparr> bucket = ''sessions'', prefix = None \<rparr> (Num 5) ''pre-key-8.json''
   \<and> keys_set reference_world \<lparr> bucket = ''sessions'', prefix = None \<rparr>
     [(''pre-key'', [(''7'', Some (Num 0))])] [(''sessions'', ''pre-key-7.json'') \<mapsto> ''1'']
   = removeData reference_world \<lparr> bucket = ''sessions'', prefix = None \<rparr> ''pre-key-7.json''
       [(''sessions'', ''pre-key-7.json'') \<mapsto> ''1'']
   \<and> snd (keys_set reference_world \<lparr> bucket = ''sessions'', prefix = None \<rparr>
            [(''pre-key'', [(''7'', Some (Num 0))])] [(''sessions'', ''pre-key-7.json'') \<mapsto> ''1''])
         (''sessions'', ''pre-key-7.json'') = None
   \<and> snd (keys_set reference_world \<lparr> bucket = ''sessions'', prefix = None \<rparr>
            [(''pre-key'', [(''7'', Some (Str []))])] [(''sessions'', ''pre-key-7.json'') \<mapsto> ''1''])
         (''sessions'', ''pre-key-7.json'') = None
   \<and> snd (keys_set reference_world \<lparr> bucket = ''sessions'', prefix = None \<rparr>
            [(''pre-key'', [(''7'', Some (Bool False))])] [(''sessions'', ''pre-key-7.json'') \<mapsto> ''1''])
         (''sessions'', ''pre-key-7.json'') = None"
proof -
  let ?config = "\<lparr> bucket = ''sessions'', prefix = None \<rparr>"
  let ?s = "[(''sessions'', ''pre-key-7.json'') \<mapsto> ''1''] :: buckets"
  let ?data = "[(''pre-key'', [(''7'', Some (Num 0)), (''8'', Some (Num 5))])]"
  have st: "s3Client reference_world = consistentStore"
    by (simp add: reference_world_def)
  have f: "\<not> present (Some (Num 0))" "\<not> present (Some (Str []))" "\<not> present (Some (Bool False))"
    by (simp_all add: present_def)
  have k: "file_of (''pre-key'', ''7'') = ''pre-key-7.json''"
    "file_of (''pre-key'', ''8'') = ''pre-key-8.json''"
    "objectKey_of ?config ''pre-key-7.json'' = ''pre-key-7.json''"
    "bucket ?config = ''sessions''"
    by (simp_all add: file_of_def objectKey_of_def prefix_of_def fixFileName_def)
  have en: "entries ?data = [((''pre-key'', ''7''), Some (Num 0)), ((''pre-key'', ''8''), Some (Num 5))]"
    by (simp add: entries_def)
  note i1 = falsy_values_are_removed [of "Num 5" reference_world ?config ?data "Some (Num 0)"
      "''pre-key''" "''7''" ?s reference_world ?s, unfolded k]
  note i2 = falsy_values_are_removed [of "Num 5" reference_world ?config ?data "Some (Str [])"
      "''pre-key''" "''7''" ?s reference_world ?s, unfolded k]
  note i3 = falsy_values_are_removed [of "Num 5" reference_world ?config ?data "Some (Bool False)"
      "''pre-key''" "''7''" ?s reference_world ?s, unfolded k]
  from i1 have "\<forall>j < length (entries ?data). \<not> present (snd (entries ?data ! j))
        \<longrightarrow> keys_set_tasks reference_world ?config ?data ! j
            = removeData reference_world ?config (file_of (fst (entries ?data ! j)))"
    by blast
  then have t0: "keys_set_tasks reference_world ?config ?data ! 0
            = removeData reference_world ?config ''pre-key-7.json''"
    by (simp add: en k present_def)
  from i1 have "\<forall>j < length (entries ?data). snd (entries ?data ! j) = Some (Num 5) \<and> truthy (Num 5)
        \<longrightarrow> keys_set_tasks reference_world ?config ?data ! j
            = writeData reference_world ?config (Num 5) (file_of (fst (entries ?data ! j)))"
    by blast
  then have t1: "keys_set_tasks reference_world ?config ?data ! 1
            = writeData reference_world ?config (Num 5) ''pre-key-8.json''"
    by (simp add: en k)
  from i1 i2 i3 st f t0 t1 show ?thesis by blast
qed

subsection \<open>The JSON text parses back\<close>

lemma digit_val_digit_char: "d < 10 \<Longrightarrow> digit_val (digit_char d) = Some d"
  by (simp add: digit_val_def digit_char_def Let_def)

lemma of_char_digit_char: "d < 10 \<Longrightarrow> (of_char (digit_char d) :: nat) = 48 + d"
  by (simp add: digit_char_def)

lemma digit_char_not_minus:
  assumes "d < 10"
  shows "digit_char d \<noteq> CHR ''-''"
proof
  assume "digit_char d = CHR ''-''"
  then have "(of_char (digit_char d) :: nat) = of_char (CHR ''-'')" by simp
  with assms show False by (simp add: of_char_digit_char)
qed

lemma show_nat_small: "n < 10 \<Longrightarrow> show_nat n = [digit_char n]"
  by (subst show_nat.simps) simp

lemma show_nat_large: "\<not> n < 10 \<Longrightarrow> show_nat n = show_nat (n div 10) @ [digit_char (n mod 10)]"
  by (subst show_nat.simps) simp

lemma parse_digits_show_nat:
  "parse_digits acc (show_nat n @ r) = parse_digits (acc * 10 ^ length (show_nat n) + n) r"
proof (induction n arbitrary: acc r rule: show_nat.induct)
  case (1 n)
  show ?case
  proof (cases "n < 10")
    case True
    then show ?thesis
      by (simp add: show_nat_small digit_val_digit_char mult.commute)
  next
    case False
    have "parse_digits acc (show_nat n @ r)
          = parse_digits acc (show_nat (n div 10) @ (digit_char (n mod 10) # r))"
      by (simp add: show_nat_large [OF False])
    also have "\<dots> = parse_digits (acc * 10 ^ length (show_nat (n div 10)) + n div 10)
                       (digit_char (n mod 10) # r)"
      using False by (rule "1.IH")
    also have "\<dots> = parse_digits (10 * (acc * 10 ^ length (show_nat (n div 10)) + n div 10) + n mod 10) r"
      by (simp add: digit_val_digit_char)
    also have "10 * (acc * 10 ^ length (show_nat (n div 10)) + n div 10) + n mod 10
               = acc * 10 ^ length (show_nat n) + n"
      by (simp add: show_nat_large [OF False] algebra_simps)
    finally show ?thesis .
  qed
qed

lemma parse_digits_end: "number_end r \<Longrightarrow> parse_digits acc r = (acc, r)"
  by (cases r) (simp_all add: number_end_def)

lemma show_nat_head:
  "\<exists>d ds. show_nat n = digit_char d # ds \<and> d < 10 \<and> (d = 0 \<longrightarrow> n = 0 \<and> ds = [])"
proof (induction n rule: show_nat.induct)
  case (1 n)
  show ?case
  proof (cases "n < 10")
    case True
    then have "show_nat n = digit_char n # [] \<and> n < 10 \<and> (n = 0 \<longrightarrow> n = 0 \<and> [] = ([] :: string))"
      by (simp add: show_nat_small)
    then show ?thesis by blast
  next
    case False
    with "1.IH" obtain d ds where
      "show_nat (n div 10) = digit_char d # ds" "d < 10" "d = 0 \<longrightarrow> n div 10 = 0 \<and> ds = []"
      by blast
    moreover from False have "n div 10 \<noteq> 0" by simp
    ultimately show ?thesis
      by (auto simp add: show_nat_large [OF False])
  qed
qed

lemma parse_unsigned_end:
  assumes "number_end r"
  shows "(case r of [] \<Rightarrow> Some (n, r)
          | c # cs \<Rightarrow> if digit_val c \<noteq> None \<or> c = CHR ''.'' \<or> c = CHR ''e'' \<or> c = CHR ''E''
                      then None else Some (n, r)) = Some (n, r)"
  using assms by (cases r) (simp_all add: number_end_def)

lemma parse_unsigned_zero:
  "number_end r \<Longrightarrow> parse_unsigned (digit_char 0 # r) = Some (0, r)"
  by (simp add: parse_unsigned_def digit_val_digit_char parse_unsigned_end)

lemma parse_unsigned_nonzero:
  "number_end r \<Longrightarrow> d < 10 \<Longrightarrow> d \<noteq> 0 \<Longrightarrow> parse_digits d cs = (n, r)
   \<Longrightarrow> parse_unsigned (digit_char d # cs) = Some (n, r)"
  by (simp add: parse_unsigned_def digit_val_digit_char parse_unsigned_end)

lemma parse_unsigned_show_nat:
  assumes "number_end r"
  shows "parse_unsigned (show_nat n @ r) = Some (n, r)"
proof -
  obtain d ds where s: "show_nat n = digit_char d # ds" and d: "d < 10"
    and z: "d = 0 \<longrightarrow> n = 0 \<and> ds = []"
    using show_nat_head by blast
  show ?thesis
  proof (cases "d = 0")
    case True
    with z have "n = 0" "ds = []" by simp_all
    with True s assms show ?thesis
      by (simp only: append_Cons append_Nil parse_unsigned_zero)
  next
    case False
    have "parse_digits 0 (show_nat n @ r) = (n, r)"
      by (simp add: parse_digits_show_nat parse_digits_end [OF assms])
    then have "parse_digits d (ds @ r) = (n, r)"
      by (simp add: s digit_val_digit_char [OF d])
    with assms d False have "parse_unsigned (digit_char d # ds @ r) = Some (n, r)"
      by (rule parse_unsigned_nonzero)
    then show ?thesis by (simp add: s)
  qed
qed

lemma parse_number_show_int:
  assumes "number_end r"
  shows "parse_number (show_int i @ r) = Some (Num i, r)"
proof (cases "i < 0")
  case True
  then show ?thesis
    by (simp add: show_int_def parse_number_def parse_unsigned_show_nat [OF assms])
next
  case False
  obtain d ds where s: "show_nat (nat i) = digit_char d # ds" and d: "d < 10"
    using show_nat_head by blast
  have "parse_unsigned (digit_char d # ds @ r) = Some (nat i, r)"
    using parse_unsigned_show_nat [OF assms, of "nat i"] by (simp add: s)
  with False show ?thesis
    by (simp add: show_int_def parse_number_def s digit_char_not_minus [OF d])
qed

lemma char_eq_code: "c = d \<longleftrightarrow> (of_char c :: nat) = of_char d"
  by simp

lemma of_char_lt: "(of_char c :: nat) < 256"
  by (rule of_char_mod_256 [where 'a = nat, THEN subst]) simp

lemma hex_val_hex_char: "d < 16 \<Longrightarrow> hex_val (hex_char d) = Some d"
  by (simp add: hex_val_def hex_char_def Let_def)

lemma hex_val_zero: "hex_val (CHR ''0'') = Some 0"
  by (simp add: hex_val_def)

lemma parse_chars_escape_quote:
  "parse_chars (CHR 0x5C # CHR 0x22 # cs) =
     (case parse_chars cs of None \<Rightarrow> None | Some (s, r) \<Rightarrow> Some (CHR 0x22 # s, r))"
  by simp

lemma parse_chars_plain:
  "32 \<le> (of_char c :: nat) \<Longrightarrow> c \<noteq> CHR 0x22 \<Longrightarrow> c \<noteq> CHR 0x5C \<Longrightarrow>
   parse_chars (c # cs) =
     (case parse_chars cs of None \<Rightarrow> None | Some (s, r) \<Rightarrow> Some (c # s, r))"
  by simp

lemma parse_chars_unicode:
  "a < 16 \<Longrightarrow> b < 16 \<Longrightarrow>
   parse_chars (CHR 0x5C # CHR ''u'' # CHR ''0'' # CHR ''0'' # hex_char a # hex_char b # cs) =
     (case parse_chars cs of None \<Rightarrow> None | Some (s, r) \<Rightarrow> Some (char_of (16 * a + b) # s, r))"
  by (simp add: hex_val_hex_char hex_val_zero)

lemma parse_chars_quote_char:
  "parse_chars (quote_char c @ cs) =
     (case parse_chars cs of None \<Rightarrow> None | Some (s, r) \<Rightarrow> Some (c # s, r))"
proof -
  let ?n = "of_char c :: nat"
  have c: "c = char_of ?n" by simp
  consider "?n = 34" | "?n = 92" | "?n = 8" | "?n = 9" | "?n = 10" | "?n = 12" | "?n = 13"
    | "?n < 32" "?n \<notin> {8, 9, 10, 12, 13}" | "32 \<le> ?n" "?n \<noteq> 34" "?n \<noteq> 92"
    by fastforce
  then show ?thesis
  proof cases
    case 1
    then have "c = CHR 0x22" by (simp add: char_eq_code)
    then show ?thesis by (simp add: quote_char_def split: option.splits)
  next
    case 2
    then have "c = CHR 0x5C" by (simp add: char_eq_code)
    then show ?thesis by (simp add: quote_char_def split: option.splits)
  next
    case 3
    then have "c = CHR 0x08" by (simp add: char_eq_code)
    then show ?thesis by (simp add: quote_char_def split: option.splits)
  next
    case 4
    then have "c = CHR 0x09" by (simp add: char_eq_code)
    then show ?thesis by (simp add: quote_char_def split: option.splits)
  next
    case 5
    then have "c = CHR 0x0A" by (simp add: char_eq_code)
    then show ?thesis by (simp add: quote_char_def split: option.splits)
  next
    case 6
    then have "c = CHR 0x0C" by (simp add: char_eq_code)
    then show ?thesis by (simp add: quote_char_def split: option.splits)
  next
    case 7
    then have "c = CHR 0x0D" by (simp add: char_eq_code)
    then show ?thesis by (simp add: quote_char_def split: option.splits)
  next
    case 8
    then have q: "quote_char c = [CHR 0x5C, CHR ''u'', CHR ''0'', CHR ''0'',
                               hex_char (?n div 16), hex_char (?n mod 16)]"
      by (simp add: quote_char_def Let_def)
    from 8 have "?n div 16 < 16" "?n mod 16 < 16" by simp_all
    then have "parse_chars (quote_char c @ cs) =
       (case parse_chars cs of None \<Rightarrow> None
        | Some (s, r) \<Rightarrow> Some (char_of (16 * (?n div 16) + ?n mod 16) # s, r))"
      unfolding q append_Cons append_Nil by (rule parse_chars_unicode)
    then show ?thesis by (simp split: option.splits)
  next
    case 9
    then have q: "quote_char c = [c]"
      by (simp add: quote_char_def Let_def)
    from 9 have "c \<noteq> CHR 0x22" "c \<noteq> CHR 0x5C" by (auto simp add: char_eq_code)
    with 9(1) have "parse_chars (c # cs) =
       (case parse_chars cs of None \<Rightarrow> None | Some (s, r) \<Rightarrow> Some (c # s, r))"
      by (rule parse_chars_plain)
    then show ?thesis
      unfolding q by (simp only: append_Cons append_Nil)
  qed
qed

lemma parse_chars_quoted:
  "parse_chars (concat (map quote_char s) @ CHR 0x22 # r) = Some (s, r)"
  by (induction s) (simp_all add: parse_chars_quote_char del: parse_chars.simps(2), simp)

lemma value_end_number_end: "value_end r \<Longrightarrow> number_end r"
  by (cases r) (auto simp add: value_end_def number_end_def digit_val_def)

lemma skip_ws_Cons: "\<not> is_ws c \<Longrightarrow> skip_ws (c # cs) = c # cs"
  by (simp add: skip_ws_def)

lemma skip_ws_Nil: "skip_ws [] = []"
  by (simp add: skip_ws_def)

lemma show_int_head:
  "\<exists>c cs. show_int i = c # cs \<and> (c = CHR ''-'' \<or> (\<exists>d < 10. c = digit_char d))"
proof -
  obtain d ds where "show_nat (nat i) = digit_char d # ds" "d < 10"
    using show_nat_head by blast
  then show ?thesis by (auto simp add: show_int_def)
qed

lemma digit_char_code: "d < 10 \<Longrightarrow> c = digit_char d \<longleftrightarrow> (of_char c :: nat) = 48 + d"
  by (auto simp add: digit_char_def char_eq_code [of c])

lemma digit_char_neq:
  "d < 10 \<Longrightarrow> (of_char c :: nat) < 48 \<or> 57 < (of_char c :: nat) \<Longrightarrow> digit_char d \<noteq> c"
  using digit_char_code [of d c] by auto

lemma parse_value_number:
  assumes "number_end r"
  shows "parse_value (Suc n) (show_int i @ r) = Some (Num i, r)"
proof -
  obtain c cs where s: "show_int i = c # cs" and c: "c = CHR ''-'' \<or> (\<exists>d < 10. c = digit_char d)"
    using show_int_head by blast
  from c have "c \<noteq> CHR ''{''" "c \<noteq> CHR ''[''" "c \<noteq> CHR 0x22" "c \<noteq> CHR ''n''"
    "c \<noteq> CHR ''t''" "c \<noteq> CHR ''f''"
    by (auto simp add: digit_char_code)
  then have "parse_value (Suc n) (c # cs @ r) = parse_number (c # cs @ r)"
    by simp
  then show ?thesis
    using parse_number_show_int [OF assms, of i] by (simp add: s)
qed

lemma parse_value_string: "parse_value (Suc n) (quote s @ r) = Some (Str s, r)"
  by (simp add: quote_def parse_chars_quoted del: parse_chars.simps)

lemma print_json_head:
  "\<exists>c cs. print_json v = c # cs \<and> \<not> is_ws c \<and> c \<noteq> CHR '']'' \<and> c \<noteq> CHR ''}''"
proof (cases v)
  case (Num i)
  obtain c cs where "show_int i = c # cs" "c = CHR ''-'' \<or> (\<exists>d < 10. c = digit_char d)"
    using show_int_head by blast
  with Num show ?thesis by (auto simp add: is_ws_def digit_char_neq)
qed (auto simp add: is_ws_def quote_def)

lemma skip_ws_print_json: "skip_ws (print_json v @ r) = print_json v @ r"
proof -
  obtain c cs where "print_json v = c # cs" "\<not> is_ws c"
    using print_json_head by blast
  then show ?thesis by (simp add: skip_ws_Cons)
qed

lemma print_json_length: "0 < length (print_json v)"
  using print_json_head [of v] by auto

lemma set_property_fresh: "k \<notin> fst ` set acc \<Longrightarrow> set_property k v acc = acc @ [(k, v)]"
  by (induction acc) auto

lemma foldl_set_property:
  "distinct (map fst (acc @ kvs)) \<Longrightarrow>
   foldl (\<lambda>acc (k, v). set_property k v acc) acc kvs = acc @ kvs"
proof (induction kvs arbitrary: acc)
  case Nil
  then show ?case by simp
next
  case (Cons kv kvs)
  obtain k v where kv: "kv = (k, v)" by (cases kv)
  from Cons.prems have "k \<notin> fst ` set acc" by (auto simp add: kv)
  then have "set_property k v acc = acc @ [(k, v)]" by (rule set_property_fresh)
  moreover from Cons.prems have "distinct (map fst ((acc @ [(k, v)]) @ kvs))"
    by (simp add: kv)
  then have "foldl (\<lambda>acc (k, v). set_property k v acc) (acc @ [(k, v)]) kvs = (acc @ [(k, v)]) @ kvs"
    by (rule Cons.IH)
  ultimately show ?case by (simp add: kv)
qed

lemma make_object_distinct: "distinct (map fst kvs) \<Longrightarrow> make_object kvs = Obj kvs"
  using foldl_set_property [of "[]" kvs] by (simp add: make_object_def)

lemma parse_elements_print:
  assumes IH: "\<And>x n r. x \<in> set xs \<Longrightarrow> length (print_json x) \<le> n \<Longrightarrow> value_end r
                 \<Longrightarrow> parse_value n (print_json x @ r) = Some (x, r)"
    and "xs \<noteq> []" and "length (join_comma (map print_json xs)) < n"
  shows "parse_elements n (join_comma (map print_json xs) @ CHR '']'' # r) = Some (xs, r)"
  using assms
proof (induction xs arbitrary: n)
  case Nil
  then show ?case by simp
next
  case (Cons x xs)
  from Cons.prems(3) obtain m where n: "n = Suc m" by (cases n) simp_all
  show ?case
  proof (cases xs)
    case Nil
    have "parse_value (Suc m) (print_json x @ CHR '']'' # r) = Some (x, CHR '']'' # r)"
      using Cons.prems(3) by (intro Cons.prems(1)) (simp_all add: n Nil value_end_def)
    then show ?thesis
      by (simp add: n Nil skip_ws_Cons is_ws_def del: parse_value.simps)
  next
    case (Cons y ys)
    let ?rest = "join_comma (map print_json (y # ys)) @ CHR '']'' # r"
    have j: "join_comma (map print_json (x # xs)) = print_json x @ CHR '','' # join_comma (map print_json (y # ys))"
      by (simp add: Cons)
    have "length (join_comma (map print_json (x # xs)))
          = length (print_json x) + 1 + length (join_comma (map print_json (y # ys)))"
      by (simp add: Cons)
    with Cons.prems(3)
    have len: "length (print_json x) + 1 + length (join_comma (map print_json (y # ys))) < Suc m"
      by (simp only: n)
    have "parse_value (Suc m) (print_json x @ CHR '','' # ?rest) = Some (x, CHR '','' # ?rest)"
      using len by (intro Cons.prems(1)) (simp_all add: value_end_def del: join_comma.simps)
    moreover have "skip_ws ?rest = ?rest"
    proof -
      have "join_comma (map print_json (y # ys)) = print_json y @ (case ys of [] \<Rightarrow> [] | z # zs \<Rightarrow> CHR '','' # join_comma (map print_json (z # zs)))"
        by (cases ys) simp_all
      then show ?thesis
        by (simp only: append_assoc skip_ws_print_json)
    qed
    moreover have "parse_elements m ?rest = Some (y # ys, r)"
    proof -
      from len print_json_length [of x]
      have "length (join_comma (map print_json (y # ys))) < m" by simp
      with Cons.prems(1) show ?thesis
        unfolding Cons [symmetric]
        by (intro Cons.IH) (simp_all add: Cons)
    qed
    ultimately show ?thesis
      by (simp add: n Cons skip_ws_Cons is_ws_def del: parse_value.simps)
  qed
qed

lemma member_text_head: "\<exists>cs. member_text kv = CHR 0x22 # cs"
  by (simp add: member_text_def quote_def)

lemma member_text_length: "0 < length (member_text kv)"
  by (simp add: member_text_def)

lemma parse_members_step:
  assumes "parse_value (Suc m) (print_json v @ c # rest) = Some (v, c # rest)"
    and "\<not> is_ws c"
  shows "parse_members (Suc m) (member_text (k, v) @ c # rest) =
     (if c = CHR ''}'' then Some ([(k, v)], rest)
      else if c = CHR '','' then
        (case parse_members m (skip_ws rest) of
           None \<Rightarrow> None
         | Some (ms, r5) \<Rightarrow> Some ((k, v) # ms, r5))
      else None)"
  using assms
  by (simp add: member_text_def quote_def parse_chars_quoted skip_ws_Cons is_ws_def
      skip_ws_print_json del: parse_value.simps parse_chars.simps)

lemma parse_members_print:
  assumes IH: "\<And>kv n r. kv \<in> set kvs \<Longrightarrow> length (print_json (snd kv)) \<le> n \<Longrightarrow> value_end r
                 \<Longrightarrow> parse_value n (print_json (snd kv) @ r) = Some (snd kv, r)"
    and "kvs \<noteq> []" and "length (join_comma (map member_text kvs)) < n"
  shows "parse_members n (join_comma (map member_text kvs) @ CHR ''}'' # r) = Some (kvs, r)"
  using assms
proof (induction kvs arbitrary: n)
  case Nil
  then show ?case by simp
next
  case (Cons kv kvs)
  obtain k v where kv: "kv = (k, v)" by (cases kv)
  from Cons.prems(3) obtain m where n: "n = Suc m" by (cases n) simp_all
  have lv: "length (print_json v) \<le> length (member_text kv)"
    by (simp add: member_text_def kv)
  show ?case
  proof (cases kvs)
    case Nil
    have "length (print_json v) \<le> Suc m"
      using Cons.prems(3) lv by (simp add: n Nil)
    then have "parse_value (Suc m) (print_json (snd kv) @ CHR ''}'' # r) = Some (snd kv, CHR ''}'' # r)"
      by (intro Cons.prems(1)) (simp_all add: kv value_end_def)
    then have "parse_members (Suc m) (member_text (k, v) @ CHR ''}'' # r) = Some ([(k, v)], r)"
      by (simp add: parse_members_step is_ws_def kv del: parse_members.simps parse_value.simps)
    then show ?thesis
      by (simp add: n Nil kv del: parse_members.simps)
  next
    case (Cons kv' kvs')
    let ?rest = "join_comma (map member_text (kv' # kvs')) @ CHR ''}'' # r"
    have "length (join_comma (map member_text (kv # kvs)))
          = length (member_text kv) + 1 + length (join_comma (map member_text (kv' # kvs')))"
      by (simp add: Cons)
    with Cons.prems(3)
    have len: "length (member_text kv) + 1 + length (join_comma (map member_text (kv' # kvs'))) < Suc m"
      by (simp only: n)
    with lv have "length (print_json v) \<le> Suc m" by simp
    then have "parse_value (Suc m) (print_json (snd kv) @ CHR '','' # ?rest) = Some (snd kv, CHR '','' # ?rest)"
      by (intro Cons.prems(1)) (simp_all add: kv value_end_def)
    then have step: "parse_members (Suc m) (member_text (k, v) @ CHR '','' # ?rest) =
        (case parse_members m (skip_ws ?rest) of
           None \<Rightarrow> None
         | Some (ms, r5) \<Rightarrow> Some ((k, v) # ms, r5))"
      by (simp add: parse_members_step is_ws_def kv del: parse_members.simps parse_value.simps)
    have ws: "skip_ws ?rest = ?rest"
    proof -
      obtain cs where "member_text kv' = CHR 0x22 # cs"
        using member_text_head by blast
      then have "\<exists>cs'. ?rest = CHR 0x22 # cs'"
        by (cases kvs') simp_all
      then show ?thesis
        by (auto simp add: skip_ws_Cons is_ws_def)
    qed
    have rec: "parse_members m ?rest = Some (kv' # kvs', r)"
    proof -
      from len member_text_length [of kv]
      have "length (join_comma (map member_text (kv' # kvs'))) < m" by simp
      with Cons.prems(1) show ?thesis
        unfolding Cons [symmetric]
        by (intro Cons.IH) (simp_all add: Cons)
    qed
    have "join_comma (map member_text (kv # kvs)) @ CHR ''}'' # r
          = member_text (k, v) @ CHR '','' # ?rest"
      by (simp add: Cons kv)
    with step ws rec show ?thesis
      by (simp add: n kv Cons del: parse_members.simps)
  qed
qed

lemma print_json_Obj:
  "print_json (Obj kvs) = CHR ''{'' # join_comma (map member_text kvs) @ ''}''"
  by (simp add: member_text_def [abs_def])

text \<open>
  The parser reads back what the printer wrote, with a bound of at least the length of the
  text, whatever follows the value inside an array or an object.
\<close>

theorem parse_value_print_json:
  "plain v \<Longrightarrow> length (print_json v) \<le> n \<Longrightarrow> value_end r
   \<Longrightarrow> parse_value n (print_json v @ r) = Some (v, r)"
proof (induction v arbitrary: n r)
  case Null
  then obtain m where "n = Suc m" by (cases n) simp_all
  then show ?case by simp
next
  case (Bool b)
  then obtain m where "n = Suc m" by (cases n; cases b) simp_all
  then show ?case by simp
next
  case (Num i)
  from Num.prems(2) print_json_length [of "Num i"] obtain m where "n = Suc m"
    by (cases n) simp_all
  with Num.prems(3) show ?case
    by (simp add: parse_value_number value_end_number_end del: parse_value.simps)
next
  case (Str s)
  from Str.prems(2) print_json_length [of "Str s"] obtain m where "n = Suc m"
    by (cases n) simp_all
  then show ?case
    by (simp add: parse_value_string del: parse_value.simps)
next
  case (Arr xs)
  from Arr.prems(2) obtain m where n: "n = Suc m" by (cases n) simp_all
  show ?case
  proof (cases "xs = []")
    case True
    then show ?thesis
      by (simp add: n skip_ws_Cons is_ws_def)
  next
    case False
    let ?text = "join_comma (map print_json xs) @ CHR '']'' # r"
    have el: "parse_elements m ?text = Some (xs, r)"
    proof (rule parse_elements_print)
      fix x n' r'
      assume "x \<in> set xs" "length (print_json x) \<le> n'" "value_end r'"
      moreover from Arr.prems(1) \<open>x \<in> set xs\<close> have "plain x" by (simp add: list_all_iff)
      ultimately show "parse_value n' (print_json x @ r') = Some (x, r')"
        by (intro Arr.IH)
    next
      show "xs \<noteq> []" by (rule False)
    next
      from Arr.prems(2) show "length (join_comma (map print_json xs)) < m"
        by (simp add: n)
    qed
    obtain x xs' where xs: "xs = x # xs'" using False by (cases xs) simp_all
    obtain c cs where h: "print_json x = c # cs" "\<not> is_ws c" "c \<noteq> CHR '']''"
      using print_json_head by blast
    have "\<exists>cs'. ?text = c # cs'"
      by (cases xs') (simp_all add: xs h(1))
    then obtain cs' where t: "?text = c # cs'" by blast
    have "parse_value (Suc m) (CHR ''['' # ?text) = Some (Arr xs, r)"
      unfolding t using h(2,3) el [unfolded t]
      by (simp add: skip_ws_Cons)
    then show ?thesis by (simp add: n del: parse_value.simps)
  qed
next
  case (Obj kvs)
  from Obj.prems(2) obtain m where n: "n = Suc m" by (cases n) simp_all
  from Obj.prems(1) have dist: "distinct (map fst kvs)" by simp
  show ?case
  proof (cases "kvs = []")
    case True
    then show ?thesis
      by (simp add: n skip_ws_Cons is_ws_def)
  next
    case False
    let ?text = "join_comma (map member_text kvs) @ CHR ''}'' # r"
    have el: "parse_members m ?text = Some (kvs, r)"
    proof (rule parse_members_print)
      fix kv n' r'
      assume kv: "kv \<in> set kvs" and "length (print_json (snd kv)) \<le> n'" "value_end r'"
      moreover from Obj.prems(1) kv have "plain (snd kv)" by (simp add: list_all_iff)
      moreover have "snd kv \<in> Basic_BNFs.snds kv" by (cases kv) simp
      ultimately show "parse_value n' (print_json (snd kv) @ r') = Some (snd kv, r')"
        by (intro Obj.IH)
    next
      show "kvs \<noteq> []" by (rule False)
    next
      from Obj.prems(2) show "length (join_comma (map member_text kvs)) < m"
        by (simp add: n print_json_Obj del: print_json.simps)
    qed
    obtain kv kvs' where kvs: "kvs = kv # kvs'" using False by (cases kvs) simp_all
    obtain cs where h: "member_text kv = CHR 0x22 # cs"
      using member_text_head by blast
    have "\<exists>cs'. ?text = CHR 0x22 # cs'"
      by (cases kvs') (simp_all add: kvs h)
    then obtain cs' where t: "?text = CHR 0x22 # cs'" by blast
    have "parse_value (Suc m) (CHR ''{'' # ?text) = Some (Obj kvs, r)"
      unfolding t using el [unfolded t]
      by (simp add: skip_ws_Cons is_ws_def make_object_distinct [OF dist])
    then show ?thesis by (simp add: n print_json_Obj del: parse_value.simps print_json.simps)
  qed
next
  case (Buf bs)
  then show ?case by simp
qed

theorem parse_json_print_json: "plain v \<Longrightarrow> parse_json (print_json v) = Some v"
  using parse_value_print_json [of v "Suc (length (print_json v))" "[]"]
  by (simp add: parse_json_def skip_ws_print_json [of v "[]", simplified] skip_ws_Nil value_end_def
      del: parse_value.simps)

lemma plain_tagged: "plain (tagged bs)"
  by (simp add: tagged_def list_all_iff)

lemma plain_encode: "proper v \<Longrightarrow> plain (encode v)"
proof (induction v)
  case (Arr xs)
  then show ?case by (simp add: list_all_iff)
next
  case (Obj kvs)
  have "map fst (map (map_prod id encode) kvs) = map fst kvs"
    by (induction kvs) auto
  moreover have "plain (encode (snd kv))" if "kv \<in> set kvs" for kv
  proof -
    from that Obj.prems have "proper (snd kv)" by (simp add: list_all_iff)
    moreover have "snd kv \<in> Basic_BNFs.snds kv" by (cases kv) simp
    ultimately show ?thesis using that by (intro Obj.IH)
  qed
  ultimately show ?case
    using Obj.prems by (auto simp add: list_all_iff)
next
  case (Buf bs)
  then show ?case by (simp add: BufferJSON_replacer_def plain_tagged)
qed simp_all

text \<open>
  The JSON text of the platform writes a text for the encoding of every proper value and
  parses it back.
\<close>

lemma ECMAScript_JSON_text:
  assumes "proper v"
  shows "stringify_text ECMAScript_JSON (encode v) \<noteq> []
       \<and> parse_text ECMAScript_JSON (stringify_text ECMAScript_JSON (encode v)) = Some (encode v)"
proof -
  from assms have "plain (encode v)" by (rule plain_encode)
  then have "parse_json (print_json (encode v)) = Some (encode v)"
    by (rule parse_json_print_json)
  moreover have "print_json (encode v) \<noteq> []"
    using print_json_length [of "encode v"] by simp
  ultimately show ?thesis
    by (simp add: ECMAScript_JSON_def)
qed

text \<open>
  C2, as amended. The codec encodes a byte sequence as the tagged object and decodes the
  tagged object back to the byte sequence. \<open>decode (encode v) = v\<close> holds exactly for the
  values \<open>v\<close> without a plain object of the tagged form. For such a value, on a store
  that keeps what it is given, writing the value under a key and reading the key yields
  the value: with every JSON text layer that writes a text for the encoded value and
  parses it back, and with the JSON text of the platform for every proper value.
\<close>

theorem codec_round_trip:
  "(decode (encode v) = v \<longleftrightarrow> untagged v)
   \<and> encode (Buf bs) = tagged bs
   \<and> decode (tagged bs) = Buf bs
   \<and> (s3Client W = consistentStore \<and> untagged v
        \<and> stringify_text (json W) (encode v) \<noteq> []
        \<and> parse_text (json W) (stringify_text (json W) (encode v)) = Some (encode v)
      \<longrightarrow> fst (readData W config key (snd (writeData W config v key s))) = Inr v)
   \<and> (s3Client W = consistentStore \<and> json W = ECMAScript_JSON \<and> untagged v \<and> proper v
      \<longrightarrow> fst (readData W config key (snd (writeData W config v key s))) = Inr v)"
proof -
  have general: "fst (readData W config key (snd (writeData W config v key s))) = Inr v"
    if "s3Client W = consistentStore" "untagged v"
      "stringify_text (json W) (encode v) \<noteq> []"
      "parse_text (json W) (stringify_text (json W) (encode v)) = Some (encode v)"
    using read_after_write [OF that(1,3,4)] that(2) by (simp add: decode_encode_iff)
  have reference: "fst (readData W config key (snd (writeData W config v key s))) = Inr v"
    if store: "s3Client W = consistentStore" and j: "json W = ECMAScript_JSON"
      and u: "untagged v" and p: "proper v"
  proof -
    from p have "plain (encode v)" by (rule plain_encode)
    then have "parse_json (print_json (encode v)) = Some (encode v)"
      by (rule parse_json_print_json)
    moreover have "print_json (encode v) \<noteq> []"
      using print_json_length [of "encode v"] by simp
    ultimately have "stringify_text (json W) (encode v) \<noteq> []"
      "parse_text (json W) (stringify_text (json W) (encode v)) = Some (encode v)"
      by (simp_all add: j ECMAScript_JSON_def)
    with store u show ?thesis by (intro general)
  qed
  from general reference decode_encode_iff [of v] encode_Buf [of bs] decode_tagged [of bs]
  show ?thesis by blast
qed

text \<open>
  The scenario of the spec: a value with the byte sequence \<open>[0, 1, 255]\<close>, written under
  \<open>sender-key-abc.json\<close> and read back.
\<close>

theorem codec_round_trip_bytes:
  "untagged (Obj [(''senderKey'', Buf [0, 1, 255])])
   \<and> decode (encode (Obj [(''senderKey'', Buf [0, 1, 255])])) = Obj [(''senderKey'', Buf [0, 1, 255])]
   \<and> encode (Buf [0, 1, 255]) = tagged [0, 1, 255]
   \<and> decode (tagged [0, 1, 255]) = Buf [0, 1, 255]
   \<and> fst (readData reference_world \<lparr> bucket = ''sessions'', prefix = Some ''auth/'' \<rparr>
            ''sender-key-abc.json''
            (snd (writeData reference_world \<lparr> bucket = ''sessions'', prefix = Some ''auth/'' \<rparr>
                    (Obj [(''senderKey'', Buf [0, 1, 255])]) ''sender-key-abc.json'' Map.empty)))
       = Inr (Obj [(''senderKey'', Buf [0, 1, 255])])"
proof -
  let ?v = "Obj [(''senderKey'', Buf [0, 1, 255])]"
  have a: "s3Client reference_world = consistentStore"
    by (simp add: reference_world_def)
  have b: "untagged ?v"
    by code_simp
  have c: "stringify_text (json reference_world) (encode ?v) \<noteq> []"
    by code_simp
  have d: "parse_text (json reference_world) (stringify_text (json reference_world) (encode ?v))
           = Some (encode ?v)"
    by code_simp
  have e: "json reference_world = ECMAScript_JSON"
    by (simp add: reference_world_def)
  have f: "proper ?v"
    by simp
  from codec_round_trip [of ?v "[0, 1, 255]" reference_world
      "\<lparr> bucket = ''sessions'', prefix = Some ''auth/'' \<rparr>" "''sender-key-abc.json''" Map.empty]
    a b c d e f
  show ?thesis by blast
qed

text \<open>
  A plain object of the tagged form is a JSON-serializable value that does not come back:
  \<^verbatim>\<open>{"type":"Buffer","data":[1,2]}\<close> is encoded as the byte sequence \<open>[1, 2]\<close> is, so
  no reviver can return both; it is written as it is and read as the byte sequence.
\<close>

theorem tagged_object_not_restored:
  "encode (Obj [(''type'', Str ''Buffer''), (''data'', Arr [Num 1, Num 2])]) = encode (Buf [1, 2])
   \<and> decode (encode (Obj [(''type'', Str ''Buffer''), (''data'', Arr [Num 1, Num 2])])) = Buf [1, 2]
   \<and> fst (readData reference_world \<lparr> bucket = ''sessions'', prefix = Some ''auth/'' \<rparr>
            ''sender-key-abc.json''
            (snd (writeData reference_world \<lparr> bucket = ''sessions'', prefix = Some ''auth/'' \<rparr>
                    (Obj [(''type'', Str ''Buffer''), (''data'', Arr [Num 1, Num 2])])
                    ''sender-key-abc.json'' Map.empty)))
       = Inr (Buf [1, 2])"
  by code_simp

subsection \<open>The tasks of keys.get on the consistent store\<close>

lemma keys_get_task_consistent:
  assumes "s3Client W = consistentStore"
    and "rv = stored_value (json W) (s (bucket config, objectKey_of config (file_of (type, ident))))"
  shows "keys_get_task W config type ident (m, s) =
     (case deserialized W type rv of
        Inl e \<Rightarrow> (Inl e, (m, s))
      | Inr v \<Rightarrow> (Inr (), (assign_property m ident v, s)))"
proof -
  have "readData W config (type @ ''-'' @ ident @ ''.json'') s = (Inr rv, s)"
    by (simp add: readData_consistent [OF assms(1)] assms(2) file_of_def)
  then show ?thesis
    by (simp add: keys_get_task_def deserialized_def)
qed

lemma settle_get_fulfilled:
  assumes "s3Client W = consistentStore"
    and "rv = (\<lambda>i. stored_value (json W) (s (bucket config, objectKey_of config (file_of (type, i)))))"
    and "\<forall>i \<in> set ids. deserialized W type (rv i) = Inr (g i)"
    and "''__proto__'' \<notin> set ids"
  shows "settle (map (keys_get_task W config type) ids) (m, s) =
     (replicate (length ids) (Inr ()), (\<lambda>i. if i \<in> set ids then Some (g i) else m i, s))"
  using assms(3,4)
proof (induction ids arbitrary: m)
  case Nil
  then show ?case by simp
next
  case (Cons i ids)
  have "rv i = stored_value (json W) (s (bucket config, objectKey_of config (file_of (type, i))))"
    by (simp add: assms(2))
  then have "keys_get_task W config type i (m, s) =
     (case deserialized W type (rv i) of
        Inl e \<Rightarrow> (Inl e, (m, s))
      | Inr v \<Rightarrow> (Inr (), (assign_property m i v, s)))"
    by (rule keys_get_task_consistent [OF assms(1)])
  moreover from Cons.prems have "deserialized W type (rv i) = Inr (g i)" and "i \<noteq> ''__proto__''"
    by auto
  ultimately have t: "keys_get_task W config type i (m, s) = (Inr (), (m(i \<mapsto> g i), s))"
    by (simp add: assign_property_def)
  have e: "(\<lambda>j. if j \<in> set ids then Some (g j) else (m(i \<mapsto> g i)) j) =
        (\<lambda>j. if j \<in> set (i # ids) then Some (g j) else m j)"
    by (rule ext) simp
  from Cons.prems have "\<forall>i \<in> set ids. deserialized W type (rv i) = Inr (g i)"
    and "''__proto__'' \<notin> set ids"
    by simp_all
  then have "settle (map (keys_get_task W config type) ids) (m(i \<mapsto> g i), s) =
     (replicate (length ids) (Inr ()), (\<lambda>j. if j \<in> set ids then Some (g j) else (m(i \<mapsto> g i)) j, s))"
    by (rule Cons.IH)
  with t e show ?case by simp
qed

lemma keys_get_fulfilled:
  assumes "s3Client W = consistentStore"
    and "rv = (\<lambda>i. stored_value (json W) (s (bucket config, objectKey_of config (file_of (type, i)))))"
    and "\<forall>i \<in> set ids. deserialized W type (rv i) = Inr (g i)"
    and "''__proto__'' \<notin> set ids"
  shows "keys_get W config type ids s = (Inr (\<lambda>i. if i \<in> set ids then Some (g i) else None), s)"
  by (simp add: keys_get_def Promise_all_def settle_get_fulfilled [OF assms] fulfilled_replicate)

lemma keys_get_plain:
  assumes "s3Client W = consistentStore"
    and "type \<noteq> ''app-state-sync-key''"
    and "''__proto__'' \<notin> set ids"
  shows "keys_get W config type ids s =
     (Inr (\<lambda>i. if i \<in> set ids
                then Some (stored_value (json W) (s (bucket config, objectKey_of config (file_of (type, i)))))
                else None), s)"
proof -
  let ?rv = "\<lambda>i. stored_value (json W) (s (bucket config, objectKey_of config (file_of (type, i))))"
  from assms(2) have "\<forall>i \<in> set ids. deserialized W type (?rv i) = Inr (?rv i)"
    by (simp add: deserialized_def)
  with assms(1) refl show ?thesis
    using assms(3) by (rule keys_get_fulfilled)
qed

lemma settle_get_rejected:
  assumes "s3Client W = consistentStore"
    and "rv = (\<lambda>i. stored_value (json W) (s (bucket config, objectKey_of config (file_of (type, i)))))"
    and "\<exists>i \<in> set ids. isl (deserialized W type (rv i))"
  shows "\<exists>r \<in> set (fst (settle (map (keys_get_task W config type) ids) (m, s))). isl r"
  using assms(3)
proof (induction ids arbitrary: m)
  case Nil
  then show ?case by simp
next
  case (Cons i ids)
  have "rv i = stored_value (json W) (s (bucket config, objectKey_of config (file_of (type, i))))"
    by (simp add: assms(2))
  then have t: "keys_get_task W config type i (m, s) =
     (case deserialized W type (rv i) of
        Inl e \<Rightarrow> (Inl e, (m, s))
      | Inr v \<Rightarrow> (Inr (), (assign_property m i v, s)))"
    by (rule keys_get_task_consistent [OF assms(1)])
  show ?case
  proof (cases "deserialized W type (rv i)")
    case (Inl e)
    with t show ?thesis by (simp add: fst_settle_Cons del: settle.simps)
  next
    case (Inr v)
    with Cons.prems have "\<exists>i \<in> set ids. isl (deserialized W type (rv i))"
      by auto
    then have "\<exists>r \<in> set (fst (settle (map (keys_get_task W config type) ids)
                                 (assign_property m i v, s))). isl r"
      by (rule Cons.IH)
    with t Inr show ?thesis by (simp add: fst_settle_Cons del: settle.simps)
  qed
qed

lemma keys_get_rejected:
  assumes "s3Client W = consistentStore"
    and "rv = (\<lambda>i. stored_value (json W) (s (bucket config, objectKey_of config (file_of (type, i)))))"
    and "\<exists>i \<in> set ids. isl (deserialized W type (rv i))"
  shows "isl (fst (keys_get W config type ids s))"
proof -
  obtain rs m' s' where st: "settle (map (keys_get_task W config type) ids) (Map.empty, s) = (rs, m', s')"
    by (cases "settle (map (keys_get_task W config type) ids) (Map.empty, s)") auto
  have "isl (fulfilled (fst (settle (map (keys_get_task W config type) ids) (Map.empty, s))))"
    using settle_get_rejected [OF assms] by (simp add: fulfilled_rejects_iff)
  with st obtain e where "fulfilled rs = Inl e"
    by (cases "fulfilled rs") simp_all
  with st show ?thesis
    by (simp add: keys_get_def Promise_all_def)
qed

lemma stored_value_entry_body:
  assumes "\<forall>v. x = Some v \<and> truthy v \<longrightarrow>
       untagged v \<and> stringify_text J (encode v) \<noteq> []
       \<and> parse_text J (stringify_text J (encode v)) = Some (encode v)"
  shows "stored_value J (entry_body J x) =
     (case x of Some v \<Rightarrow> (if truthy v then v else Null) | None \<Rightarrow> Null)"
  using assms
  by (auto simp add: stored_value_def entry_body_def JSON_stringify_def JSON_parse_def
      decode_encode_iff split: option.splits)

lemma expected_falsy: "\<not> truthy (expected data type i) \<Longrightarrow> expected data type i = Null"
  by (simp add: expected_def split: option.splits if_splits)

subsection \<open>Setting keys, then getting them\<close>

text \<open>
  C1, as amended. On a store that keeps what it is given, let the categories and
  identifiers of \<open>data\<close> and the identifiers asked for resolve to pairwise distinct object
  keys; let every present value of \<open>data\<close> have no plain object of the tagged form, and
  the JSON text layer write a text for its encoding and parse it back; let the
  identifiers asked for and not named by \<open>data\<close> have no object; and let \<open>__proto__\<close> not
  be asked for. Then \<open>keys.set(data)\<close> is fulfilled, and \<open>keys.get(type, ids)\<close> afterwards
  is as follows. For a category other than \<open>app-state-sync-key\<close> it returns the mapping of
  exactly the identifiers asked for, each bound to the value that \<open>data\<close> gave it when
  that is present, and to the absent sentinel when \<open>data\<close> gave it an absent value or did
  not name it. For the category \<open>app-state-sync-key\<close> the present values go through the
  deserializer: when it returns \<open>g i\<close> for the value of every identifier \<open>i\<close> asked for
  that has one, the mapping binds these identifiers to \<open>g i\<close> and the others to the absent
  sentinel; when it rejects the value of one of them, \<open>keys.get\<close> is rejected.
\<close>

theorem keys_set_then_get:
  assumes store: "s3Client W = consistentStore"
    and pairs: "distinct (map fst (entries data))"
    and keys: "distinct (map (\<lambda>ci. fixFileName (Some (file_of ci)))
                 (remdups (map fst (entries data) @ map (Pair type) ids)))"
    and vals: "\<forall>e \<in> set (entries data). \<forall>v. snd e = Some v \<and> truthy v \<longrightarrow>
                 untagged v \<and> stringify_text (json W) (encode v) \<noteq> []
                 \<and> parse_text (json W) (stringify_text (json W) (encode v)) = Some (encode v)"
    and fresh: "\<forall>i \<in> set ids. (type, i) \<in> set (map fst (entries data))
                  \<or> s (bucket config, objectKey_of config (file_of (type, i))) = None"
    and noproto: "''__proto__'' \<notin> set ids"
  shows "fst (keys_set W config data s) = Inr ()
       \<and> (type \<noteq> ''app-state-sync-key'' \<longrightarrow>
            fst (keys_get W config type ids (snd (keys_set W config data s))) =
              Inr (\<lambda>i. if i \<in> set ids then Some (expected data type i) else None))
       \<and> (type = ''app-state-sync-key''
            \<and> (\<forall>i \<in> set ids. truthy (expected data type i) \<longrightarrow>
                  fromObject W (expected data type i) = Inr (g i)) \<longrightarrow>
            fst (keys_get W config type ids (snd (keys_set W config data s))) =
              Inr (\<lambda>i. if i \<in> set ids
                         then Some (if truthy (expected data type i) then g i else Null)
                         else None))
       \<and> (type = ''app-state-sync-key''
            \<and> (\<exists>i \<in> set ids. truthy (expected data type i)
                  \<and> isl (fromObject W (expected data type i))) \<longrightarrow>
            isl (fst (keys_get W config type ids (snd (keys_set W config data s)))))"
proof -
  let ?es = "entries data"
  let ?J = "json W"
  let ?K = "\<lambda>ci. (bucket config, objectKey_of config (file_of ci))"
  let ?f = "\<lambda>s e. s(?K (fst e) := entry_body ?J (snd e))"
  let ?s' = "foldl ?f s ?es"
  let ?rv = "\<lambda>i. stored_value ?J (?s' (?K (type, i)))"
  have set_eq: "keys_set W config data s = (Inr (), ?s')"
    using store by (rule keys_set_consistent)
  have inj: "inj_on (\<lambda>ci. fixFileName (Some (file_of ci))) (set (map fst ?es) \<union> Pair type ` set ids)"
    using keys by (simp add: distinct_map)
  have injK: "inj_on ?K (set (map fst ?es) \<union> Pair type ` set ids)"
  proof (rule inj_onI)
    fix a b
    assume a: "a \<in> set (map fst ?es) \<union> Pair type ` set ids"
      and b: "b \<in> set (map fst ?es) \<union> Pair type ` set ids"
      and "?K a = ?K b"
    then have "fixFileName (Some (file_of a)) = fixFileName (Some (file_of b))"
      by (simp add: objectKey_of_def)
    with inj a b show "a = b" by (meson inj_onD)
  qed
  have distK: "distinct (map (\<lambda>e. ?K (fst e)) ?es)"
  proof -
    have "inj_on ?K (set (map fst ?es))"
      using injK by (rule inj_on_subset) simp
    with pairs have "distinct (map ?K (map fst ?es))"
      by (rule distinct_map_inj)
    then show ?thesis by (simp add: comp_def)
  qed
  have rv: "?rv i = expected data type i" if i: "i \<in> set ids" for i
  proof (cases "(type, i) \<in> set (map fst ?es)")
    case True
    then obtain e where e: "e \<in> set ?es" "fst e = (type, i)" by auto
    from distK e(1) have "?s' (?K (fst e)) = entry_body ?J (snd e)"
      by (rule foldl_upd_member [where k = "\<lambda>e. ?K (fst e)" and b = "\<lambda>e. entry_body ?J (snd e)"])
    then have look: "?s' (?K (type, i)) = entry_body ?J (snd e)"
      by (simp add: e(2))
    from e have "((type, i), snd e) \<in> set ?es"
      by (metis prod.collapse)
    with pairs have m: "map_of ?es (type, i) = Some (snd e)"
      by (rule map_of_is_SomeI)
    from vals e(1) have "\<forall>v. snd e = Some v \<and> truthy v \<longrightarrow>
       untagged v \<and> stringify_text ?J (encode v) \<noteq> []
       \<and> parse_text ?J (stringify_text ?J (encode v)) = Some (encode v)"
      by (rule bspec)
    then have "stored_value ?J (entry_body ?J (snd e)) =
       (case snd e of Some v \<Rightarrow> (if truthy v then v else Null) | None \<Rightarrow> Null)"
      by (rule stored_value_entry_body)
    with look m show ?thesis
      by (simp add: expected_def split: option.splits)
  next
    case False
    have "?K (type, i) \<notin> (\<lambda>e. ?K (fst e)) ` set ?es"
    proof
      assume "?K (type, i) \<in> (\<lambda>e. ?K (fst e)) ` set ?es"
      then obtain e where e: "e \<in> set ?es" "?K (type, i) = ?K (fst e)" by auto
      from e(1) have "fst e \<in> set (map fst ?es) \<union> Pair type ` set ids" by simp
      moreover from i have "(type, i) \<in> set (map fst ?es) \<union> Pair type ` set ids" by simp
      ultimately have "(type, i) = fst e"
        using injK e(2) by (meson inj_onD)
      with e(1) False show False by simp
    qed
    then have "?s' (?K (type, i)) = s (?K (type, i))"
      by (rule foldl_upd_other [where k = "\<lambda>e. ?K (fst e)" and b = "\<lambda>e. entry_body ?J (snd e)"])
    moreover from fresh i False have "s (?K (type, i)) = None" by blast
    moreover from False have "map_of ?es (type, i) = None"
      by (simp add: map_of_eq_None_iff)
    ultimately show ?thesis
      by (simp add: expected_def stored_value_def)
  qed
  have other: "fst (keys_get W config type ids ?s') =
      Inr (\<lambda>i. if i \<in> set ids then Some (expected data type i) else None)"
    if t: "type \<noteq> ''app-state-sync-key''"
  proof -
    have "(\<lambda>i. if i \<in> set ids then Some (?rv i) else None) =
          (\<lambda>i. if i \<in> set ids then Some (expected data type i) else None)"
      by (rule ext) (simp add: rv)
    then show ?thesis
      by (simp add: keys_get_plain [OF store t noproto])
  qed
  have sync: "fst (keys_get W config type ids ?s') =
      Inr (\<lambda>i. if i \<in> set ids
                 then Some (if truthy (expected data type i) then g i else Null)
                 else None)"
    if t: "type = ''app-state-sync-key''"
      and d: "\<forall>i \<in> set ids. truthy (expected data type i) \<longrightarrow>
                fromObject W (expected data type i) = Inr (g i)"
  proof -
    let ?g = "\<lambda>i. if truthy (expected data type i) then g i else Null"
    have "\<forall>i \<in> set ids. deserialized W type (?rv i) = Inr (?g i)"
    proof
      fix i
      assume i: "i \<in> set ids"
      show "deserialized W type (?rv i) = Inr (?g i)"
      proof (cases "truthy (expected data type i)")
        case True
        with d i have "fromObject W (expected data type i) = Inr (g i)" by blast
        with True t have "deserialized W type (expected data type i) = Inr (?g i)"
          by (simp add: deserialized_def)
        then show ?thesis by (simp only: rv [OF i])
      next
        case False
        then have "expected data type i = Null" by (rule expected_falsy)
        then have "deserialized W type (expected data type i) = Inr (?g i)"
          by (simp add: deserialized_def)
        then show ?thesis by (simp only: rv [OF i])
      qed
    qed
    with store refl have "keys_get W config type ids ?s' =
        (Inr (\<lambda>i. if i \<in> set ids then Some (?g i) else None), ?s')"
      using noproto by (rule keys_get_fulfilled)
    then show ?thesis by simp
  qed
  have rejected: "isl (fst (keys_get W config type ids ?s'))"
    if t: "type = ''app-state-sync-key''"
      and d: "\<exists>i \<in> set ids. truthy (expected data type i)
                \<and> isl (fromObject W (expected data type i))"
  proof -
    from d obtain i where i: "i \<in> set ids" "truthy (expected data type i)"
      "isl (fromObject W (expected data type i))"
      by blast
    with t have "isl (deserialized W type (expected data type i))"
      by (simp add: deserialized_def)
    then have "isl (deserialized W type (?rv i))"
      by (simp only: rv [OF i(1)])
    with i(1) have "\<exists>i \<in> set ids. isl (deserialized W type (?rv i))" by blast
    with store refl show ?thesis by (rule keys_get_rejected)
  qed
  let ?R = "fst (keys_get W config type ids (snd (keys_set W config data s)))"
  from set_eq have c1: "fst (keys_set W config data s) = Inr ()"
    by simp
  from set_eq have R: "?R = fst (keys_get W config type ids (foldl ?f s ?es))"
    by simp
  have c2: "type \<noteq> ''app-state-sync-key'' \<longrightarrow>
      ?R = Inr (\<lambda>i. if i \<in> set ids then Some (expected data type i) else None)"
    using other by (simp only: R) blast
  have c3: "type = ''app-state-sync-key''
      \<and> (\<forall>i \<in> set ids. truthy (expected data type i) \<longrightarrow>
            fromObject W (expected data type i) = Inr (g i)) \<longrightarrow>
      ?R = Inr (\<lambda>i. if i \<in> set ids
                 then Some (if truthy (expected data type i) then g i else Null)
                 else None)"
    using sync by (simp only: R) blast
  have c4: "type = ''app-state-sync-key''
      \<and> (\<exists>i \<in> set ids. truthy (expected data type i)
            \<and> isl (fromObject W (expected data type i))) \<longrightarrow>
      isl ?R"
    using rejected by (simp only: R) blast
  from c1 c2 c3 c4 show ?thesis by (intro conjI)
qed

text \<open>
  The scenario of the spec:
  \<^verbatim>\<open>keys.set({ "pre-key": { "1": {foo: "bar"}, "2": null } })\<close>, then
  \<^verbatim>\<open>keys.get("pre-key", ["1","2","3"])\<close>. And two app-state sync keys with a deserializer
  that keeps the properties \<open>keyData\<close>, \<open>fingerprint\<close> and \<open>timestamp\<close> of an object and
  rejects every other value: an object with binary key data is set with a property
  \<open>note\<close> and got without it, the identifier that was never written is got as the absent
  sentinel; and after a string was set, \<open>keys.get\<close> is rejected.
\<close>

theorem keys_set_then_get_scenario:
  "fst (keys_set reference_world \<lparr> bucket = ''sessions'', prefix = Some ''auth/'' \<rparr>
          [(''pre-key'', [(''1'', Some (Obj [(''foo'', Str ''bar'')])), (''2'', Some Null)])]
          Map.empty) = Inr ()
   \<and> fst (keys_get reference_world \<lparr> bucket = ''sessions'', prefix = Some ''auth/'' \<rparr>
          ''pre-key'' [''1'', ''2'', ''3'']
          (snd (keys_set reference_world \<lparr> bucket = ''sessions'', prefix = Some ''auth/'' \<rparr>
                  [(''pre-key'', [(''1'', Some (Obj [(''foo'', Str ''bar'')])), (''2'', Some Null)])]
                  Map.empty))) =
       Inr [''1'' \<mapsto> Obj [(''foo'', Str ''bar'')], ''2'' \<mapsto> Null, ''3'' \<mapsto> Null]
   \<and> fst (keys_get example_world \<lparr> bucket = ''sessions'', prefix = Some ''auth/'' \<rparr>
          ''app-state-sync-key'' [''AAAAAA'', ''BBBBBB'']
          (snd (keys_set example_world \<lparr> bucket = ''sessions'', prefix = Some ''auth/'' \<rparr>
                  [(''app-state-sync-key'',
                    [(''AAAAAA'', Some (Obj [(''keyData'', Buf [7, 8, 9]), (''note'', Str ''x''),
                                             (''timestamp'', Num 12)]))])]
                  Map.empty))) =
       Inr [''AAAAAA'' \<mapsto> Obj [(''keyData'', Buf [7, 8, 9]), (''timestamp'', Num 12)],
            ''BBBBBB'' \<mapsto> Null]
   \<and> isl (fst (keys_get example_world \<lparr> bucket = ''sessions'', prefix = Some ''auth/'' \<rparr>
          ''app-state-sync-key'' [''AAAAAA'']
          (snd (keys_set example_world \<lparr> bucket = ''sessions'', prefix = Some ''auth/'' \<rparr>
                  [(''app-state-sync-key'', [(''AAAAAA'', Some (Str ''x''))])]
                  Map.empty))))"
proof -
  let ?data = "[(''pre-key'', [(''1'', Some (Obj [(''foo'', Str ''bar'')])), (''2'', Some Null)])]"
  let ?data2 = "[(''app-state-sync-key'',
                    [(''AAAAAA'', Some (Obj [(''keyData'', Buf [7, 8, 9]), (''note'', Str ''x''),
                                             (''timestamp'', Num 12)]))])]"
  let ?data3 = "[(''app-state-sync-key'', [(''AAAAAA'', Some (Str ''x''))])]"
  let ?config = "\<lparr> bucket = ''sessions'', prefix = Some ''auth/'' \<rparr>"
  let ?g = "\<lambda>i :: string. Obj [(''keyData'', Buf [7, 8, 9]), (''timestamp'', Num 12)]"
  have store: "s3Client reference_world = consistentStore"
    by (simp add: reference_world_def)
  have store': "s3Client example_world = consistentStore"
    by (simp add: example_world_def)
  have json: "json reference_world = ECMAScript_JSON" "json example_world = ECMAScript_JSON"
    by (simp_all add: reference_world_def example_world_def)
  have pairs: "distinct (map fst (entries ?data))"
    by code_simp
  have keys: "distinct (map (\<lambda>ci. fixFileName (Some (file_of ci)))
                 (remdups (map fst (entries ?data) @ map (Pair ''pre-key'') [''1'', ''2'', ''3''])))"
    by code_simp
  have vals: "\<forall>e \<in> set (entries ?data). \<forall>v. snd e = Some v \<and> truthy v \<longrightarrow>
                 untagged v \<and> stringify_text (json reference_world) (encode v) \<noteq> []
                 \<and> parse_text (json reference_world)
                      (stringify_text (json reference_world) (encode v)) = Some (encode v)"
    using ECMAScript_JSON_text [of "Obj [(''foo'', Str ''bar'')]"]
    by (simp add: entries_def json tagged_data_def)
  have fresh: "\<forall>i \<in> set [''1'', ''2'', ''3'']. (''pre-key'', i) \<in> set (map fst (entries ?data))
                  \<or> (Map.empty :: buckets) (bucket ?config, objectKey_of ?config (file_of (''pre-key'', i))) = None"
    by simp
  have noproto: "''__proto__'' \<notin> set [''1'', ''2'', ''3'']"
    by simp
  have e: "(\<lambda>i. if i \<in> set [''1'', ''2'', ''3''] then Some (expected ?data ''pre-key'' i) else None) =
           [''1'' \<mapsto> Obj [(''foo'', Str ''bar'')], ''2'' \<mapsto> Null, ''3'' \<mapsto> Null]"
    by (rule ext) (simp add: expected_def entries_def)
  have pairs2: "distinct (map fst (entries ?data2))"
    by code_simp
  have keys2: "distinct (map (\<lambda>ci. fixFileName (Some (file_of ci)))
                 (remdups (map fst (entries ?data2) @ map (Pair ''app-state-sync-key'') [''AAAAAA'', ''BBBBBB''])))"
    by code_simp
  have vals2: "\<forall>e \<in> set (entries ?data2). \<forall>v. snd e = Some v \<and> truthy v \<longrightarrow>
                 untagged v \<and> stringify_text (json example_world) (encode v) \<noteq> []
                 \<and> parse_text (json example_world)
                      (stringify_text (json example_world) (encode v)) = Some (encode v)"
    using ECMAScript_JSON_text [of "Obj [(''keyData'', Buf [7, 8, 9]), (''note'', Str ''x''),
                                         (''timestamp'', Num 12)]"]
    by (simp add: entries_def json tagged_data_def)
  have fresh2: "\<forall>i \<in> set [''AAAAAA'', ''BBBBBB''].
                  (''app-state-sync-key'', i) \<in> set (map fst (entries ?data2))
                  \<or> (Map.empty :: buckets)
                       (bucket ?config, objectKey_of ?config (file_of (''app-state-sync-key'', i))) = None"
    by simp
  have noproto2: "''__proto__'' \<notin> set [''AAAAAA'', ''BBBBBB'']"
    by simp
  have des2: "\<forall>i \<in> set [''AAAAAA'', ''BBBBBB''].
                truthy (expected ?data2 ''app-state-sync-key'' i) \<longrightarrow>
                fromObject example_world (expected ?data2 ''app-state-sync-key'' i) = Inr (?g i)"
    by (simp add: expected_def entries_def example_world_def example_fromObject_def)
  have e2: "(\<lambda>i. if i \<in> set [''AAAAAA'', ''BBBBBB'']
                  then Some (if truthy (expected ?data2 ''app-state-sync-key'' i) then ?g i else Null)
                  else None) =
           [''AAAAAA'' \<mapsto> Obj [(''keyData'', Buf [7, 8, 9]), (''timestamp'', Num 12)],
            ''BBBBBB'' \<mapsto> Null]"
    by (rule ext) (simp add: expected_def entries_def)
  have pairs3: "distinct (map fst (entries ?data3))"
    by code_simp
  have keys3: "distinct (map (\<lambda>ci. fixFileName (Some (file_of ci)))
                 (remdups (map fst (entries ?data3) @ map (Pair ''app-state-sync-key'') [''AAAAAA''])))"
    by code_simp
  have vals3: "\<forall>e \<in> set (entries ?data3). \<forall>v. snd e = Some v \<and> truthy v \<longrightarrow>
                 untagged v \<and> stringify_text (json example_world) (encode v) \<noteq> []
                 \<and> parse_text (json example_world)
                      (stringify_text (json example_world) (encode v)) = Some (encode v)"
    using ECMAScript_JSON_text [of "Str ''x''"]
    by (simp add: entries_def json)
  have fresh3: "\<forall>i \<in> set [''AAAAAA''].
                  (''app-state-sync-key'', i) \<in> set (map fst (entries ?data3))
                  \<or> (Map.empty :: buckets)
                       (bucket ?config, objectKey_of ?config (file_of (''app-state-sync-key'', i))) = None"
    by simp
  have noproto3: "''__proto__'' \<notin> set [''AAAAAA'']"
    by simp
  have des3: "\<exists>i \<in> set [''AAAAAA'']. truthy (expected ?data3 ''app-state-sync-key'' i)
                \<and> isl (fromObject example_world (expected ?data3 ''app-state-sync-key'' i))"
    by (simp add: expected_def entries_def example_world_def example_fromObject_def)
  have t: "''pre-key'' \<noteq> ''app-state-sync-key''"
    by simp
  from keys_set_then_get [OF store pairs keys vals fresh noproto] t
  have a: "fst (keys_set reference_world ?config ?data Map.empty) = Inr ()"
    and b: "fst (keys_get reference_world ?config ''pre-key'' [''1'', ''2'', ''3'']
                   (snd (keys_set reference_world ?config ?data Map.empty))) =
            Inr (\<lambda>i. if i \<in> set [''1'', ''2'', ''3''] then Some (expected ?data ''pre-key'' i) else None)"
    by blast+
  from keys_set_then_get [OF store' pairs2 keys2 vals2 fresh2 noproto2, where g = ?g] des2
  have c: "fst (keys_get example_world ?config ''app-state-sync-key'' [''AAAAAA'', ''BBBBBB'']
                   (snd (keys_set example_world ?config ?data2 Map.empty))) =
            Inr (\<lambda>i. if i \<in> set [''AAAAAA'', ''BBBBBB'']
                  then Some (if truthy (expected ?data2 ''app-state-sync-key'' i) then ?g i else Null)
                  else None)"
    by blast
  from keys_set_then_get [OF store' pairs3 keys3 vals3 fresh3 noproto3] des3
  have d: "isl (fst (keys_get example_world ?config ''app-state-sync-key'' [''AAAAAA'']
                   (snd (keys_set example_world ?config ?data3 Map.empty))))"
    by blast
  from a b c d e e2 show ?thesis by (simp only:)
qed

text \<open>
  Without distinct object keys the two calls are not a key-value map. The identifiers
  \<open>1:2\<close> and \<open>1-2\<close> resolve to the object key \<open>auth/pre-key-1-2.json\<close>: after
  \<^verbatim>\<open>keys.set({ "pre-key": { "1:2": {foo: "bar"}, "1-2": null } })\<close> the write of the first
  entry is undone by the removal of the second, and \<open>keys.get\<close> binds \<open>1:2\<close> to the
  absent sentinel.
\<close>

theorem colliding_identifiers:
  "fst (keys_set reference_world \<lparr> bucket = ''sessions'', prefix = Some ''auth/'' \<rparr>
          [(''pre-key'', [(''1:2'', Some (Obj [(''foo'', Str ''bar'')])), (''1-2'', Some Null)])]
          Map.empty) = Inr ()
   \<and> fst (keys_get reference_world \<lparr> bucket = ''sessions'', prefix = Some ''auth/'' \<rparr>
          ''pre-key'' [''1:2'', ''1-2'']
          (snd (keys_set reference_world \<lparr> bucket = ''sessions'', prefix = Some ''auth/'' \<rparr>
                  [(''pre-key'', [(''1:2'', Some (Obj [(''foo'', Str ''bar'')])), (''1-2'', Some Null)])]
                  Map.empty))) =
       Inr [''1:2'' \<mapsto> Null, ''1-2'' \<mapsto> Null]"
proof -
  have st: "s3Client reference_world = consistentStore"
    by (simp add: reference_world_def)
  show ?thesis
    by (simp add: keys_set_consistent [OF st] keys_get_plain [OF st]
        entries_def entry_body_def stored_value_def objectKey_of_def prefix_of_def
        fixFileName_def file_of_def fun_eq_iff)
qed

text \<open>
  The identifier \<open>__proto__\<close> is left out of the statement above because the mapping that
  \<open>keys.get\<close> returns has no own property of this name, whatever was set: after an entry
  \<open>__proto__\<close> of the category \<open>pre-key\<close> was set, \<open>keys.get("pre-key", ["__proto__", "1"])\<close>
  returns a mapping with the own property \<open>1\<close> only.
\<close>

lemma proto_identifier_not_bound:
  "fst (keys_get reference_world \<lparr> bucket = ''sessions'', prefix = Some ''auth/'' \<rparr>
          ''pre-key'' [''__proto__'', ''1'']
          (snd (keys_set reference_world \<lparr> bucket = ''sessions'', prefix = Some ''auth/'' \<rparr>
                  [(''pre-key'', [(''__proto__'', Some (Obj [(''foo'', Str ''bar'')])),
                                  (''1'', Some (Num 5))])]
                  Map.empty))) =
       Inr [''1'' \<mapsto> Num 5]"
proof -
  let ?config = "\<lparr> bucket = ''sessions'', prefix = Some ''auth/'' \<rparr>"
  let ?data = "[(''pre-key'', [(''__proto__'', Some (Obj [(''foo'', Str ''bar'')])),
                               (''1'', Some (Num 5))])]"
  have st: "s3Client reference_world = consistentStore"
    by (simp add: reference_world_def)
  obtain s' where s': "keys_set reference_world ?config ?data Map.empty = (Inr (), s')"
    by (simp add: keys_set_consistent [OF st])
  have a: "stored_value (json reference_world)
             (snd (keys_set reference_world ?config ?data Map.empty)
                (bucket ?config, objectKey_of ?config (file_of (''pre-key'', ''__proto__''))))
           = Obj [(''foo'', Str ''bar'')]"
    by code_simp
  have b: "stored_value (json reference_world)
             (snd (keys_set reference_world ?config ?data Map.empty)
                (bucket ?config, objectKey_of ?config (file_of (''pre-key'', ''1''))))
           = Num 5"
    by code_simp
  from a b s' show ?thesis
    by (simp add: keys_get_def Promise_all_def keys_get_task_consistent [OF st refl]
        deserialized_def assign_property_def)
qed

subsection \<open>Credentials across a restart\<close>






end
